theory Spec2Isabelle
  imports Main
begin

section \<open>JavaScript values and the source classifier\<close>

text \<open>
  The values that can reach \<open>async\<close>. An object carries an identity and its own
  properties; a function value carries an identity. Property lookup on a primitive goes to
  the standard prototypes, none of which has a \<open>then\<close> or a \<open>subscribe\<close>, so it
  yields \<open>undefined\<close> there.
\<close>

datatype jsval =
    Undefined
  | Null
  | JBool bool
  | JNum int
  | JStr string
  | JArr "jsval list"
  | JFun nat
  | JObj nat "(string \<times> jsval) list"

text \<open>\<open>!!obj\<close>\<close>

fun truthy :: "jsval \<Rightarrow> bool" where
  "truthy Undefined = False"
| "truthy Null = False"
| "truthy (JBool b) = b"
| "truthy (JNum n) = (n \<noteq> 0)"
| "truthy (JStr s) = (s \<noteq> [])"
| "truthy (JArr xs) = True"
| "truthy (JFun f) = True"
| "truthy (JObj i ps) = True"

text \<open>
  \<open>obj.name\<close>: a \<open>TypeError\<close> on \<open>undefined\<close> and \<open>null\<close>, the own property of an
  object, \<open>undefined\<close> where the property is missing.
\<close>

datatype error = TypeError

fun getProp :: "jsval \<Rightarrow> string \<Rightarrow> error + jsval" where
  "getProp Undefined name = Inl TypeError"
| "getProp Null name = Inl TypeError"
| "getProp (JObj i ps) name = Inr (case map_of ps name of None \<Rightarrow> Undefined | Some v \<Rightarrow> v)"
| "getProp v name = Inr Undefined"

text \<open>\<open>typeof v === 'function'\<close>\<close>

fun isFunction :: "jsval \<Rightarrow> bool" where
  "isFunction (JFun f) = True"
| "isFunction v = False"

text \<open>\<open>!!obj && typeof obj.then === 'function'\<close>: \<open>&&\<close> does not evaluate its right side when the left is false.\<close>

definition isPromise :: "jsval \<Rightarrow> error + bool" where
  "isPromise obj =
     (if \<not> truthy obj then Inr False
      else case getProp obj ''then'' of Inl e \<Rightarrow> Inl e | Inr f \<Rightarrow> Inr (isFunction f))"

definition isSubscribable :: "jsval \<Rightarrow> error + bool" where
  "isSubscribable obj =
     (if \<not> truthy obj then Inr False
      else case getProp obj ''subscribe'' of Inl e \<Rightarrow> Inl e | Inr f \<Rightarrow> Inr (isFunction f))"

section \<open>JavaScript \<open>Map\<close> as an insertion-ordered association list\<close>

definition map_has :: "'k \<Rightarrow> ('k \<times> 'v) list \<Rightarrow> bool" where
  "map_has k m = (map_of m k \<noteq> None)"

fun map_set :: "'k \<Rightarrow> 'v \<Rightarrow> ('k \<times> 'v) list \<Rightarrow> ('k \<times> 'v) list" where
  "map_set k v [] = [(k, v)]"
| "map_set k v (p # ps) = (if fst p = k then (k, v) # ps else p # map_set k v ps)"

definition map_delete :: "'k \<Rightarrow> ('k \<times> 'v) list \<Rightarrow> ('k \<times> 'v) list" where
  "map_delete k m = filter (\<lambda>p. fst p \<noteq> k) m"

text \<open>\<open>Map.get\<close> on a map of JavaScript values: \<open>undefined\<close> for a missing key.\<close>

definition map_get :: "'k \<Rightarrow> ('k \<times> jsval) list \<Rightarrow> jsval" where
  "map_get k m = (case map_of m k of None \<Rightarrow> Undefined | Some v \<Rightarrow> v)"

section \<open>Components, hooks and registrations\<close>

type_synonym comp = nat
type_synonym ref = nat
type_synonym oref = nat
type_synonym sub = nat

text \<open>
  What a render function does, as far as this library can see: it calls \<open>async\<close> on
  some values, continues according to what it gets back, and returns a result.
\<close>

datatype rprog =
    Return jsval
  | Read jsval "jsval \<Rightarrow> rprog"

text \<open>
  A hook slot of a component holds \<open>undefined\<close>, a function of the component's author
  (an identity and a body), or one of the three closures that \<open>init\<close> creates. Such a
  closure captures \<open>component\<close> and \<open>compReg\<close>; the only part of
  \<open>compReg.origMethods\<close> it ever reads is the original of its own slot, and nothing
  assigns \<open>origMethods\<close> or its fields after \<open>init\<close> has built the object, so the
  closure value carries that original next to the address of \<open>compReg\<close>.
\<close>

datatype hook =
    Absent
  | UserFn nat rprog
  | WConnected comp ref hook
  | WDisconnected comp ref hook
  | WRender comp ref hook

text \<open>The truthiness test of a hook slot: \<open>if (slot)\<close>.\<close>

fun present :: "hook \<Rightarrow> bool" where
  "present Absent = False"
| "present h = True"

record ComponentInterface =
  connectedCallback :: hook
  disconnectedCallback :: hook
  render :: hook

record ObservableRegistration =
  subscription :: sub
  result :: jsval

record ComponentRegistration =
  promises :: "(jsval \<times> jsval) list"
  observables :: "(jsval \<times> oref) list"
  recentlyUsedObservables :: "jsval list"
  origMethods :: ComponentInterface

text \<open>
  The module state and the world around it. \<open>componentRegistrations\<close> is the module's
  \<open>Map\<close>; \<open>regs\<close> and \<open>obsRegs\<close> are the heap of registration objects, which the
  closures reach by address; \<open>components\<close> holds the hook slots of every component
  and \<open>renderingRef\<close> is what \<open>getRenderingRef()\<close> returns. The rest is the
  environment: the continuations attached with \<open>promise.then\<close> and not yet run, the
  subscribers registered with \<open>subscribe\<close>, the subscriptions that were unsubscribed,
  what each observable emits synchronously on subscription, and the logs of
  \<open>forceUpdate\<close>, \<open>console.error\<close> and of the calls of the author's functions.
\<close>

record world =
  componentRegistrations :: "comp \<Rightarrow> ref option"
  regs :: "ref \<Rightarrow> ComponentRegistration"
  obsRegs :: "oref \<Rightarrow> ObservableRegistration"
  components :: "comp \<Rightarrow> ComponentInterface"
  renderingRef :: comp
  nextRef :: ref
  nextObsReg :: oref
  nextSub :: sub
  thens :: "(jsval \<times> ref \<times> comp) list"
  subscribers :: "(sub \<times> jsval \<times> oref \<times> comp) list"
  unsubscribed :: "sub list"
  syncEmits :: "jsval \<Rightarrow> jsval list"
  forceUpdates :: "comp list"
  consoleErrors :: "jsval list"
  userCalls :: "nat list"

text \<open>
  An assignment to a field of the registration object at address \<open>r\<close>, the call
  \<open>forceUpdate(component)\<close>, which the host records, and \<open>subscription.unsubscribe()\<close>.
\<close>

definition updReg :: "ref \<Rightarrow> (ComponentRegistration \<Rightarrow> ComponentRegistration) \<Rightarrow> world \<Rightarrow> world" where
  "updReg r f w = w\<lparr>regs := (regs w)(r := f (regs w r))\<rparr>"

definition forceUpdate :: "comp \<Rightarrow> world \<Rightarrow> world" where
  "forceUpdate component w = w\<lparr>forceUpdates := forceUpdates w @ [component]\<rparr>"

definition unsubscribe :: "sub \<Rightarrow> world \<Rightarrow> world" where
  "unsubscribe sb w = w\<lparr>unsubscribed := sb # unsubscribed w\<rparr>"

section \<open>The module's functions\<close>

text \<open>
  \<open>init\<close> allocates the registration object, stores it in \<open>componentRegistrations\<close> and
  replaces the three hooks of the component by closures; \<open>destroy\<close> unsubscribes every
  entry of \<open>observables\<close>, deletes the component from the store and assigns the saved
  hooks; \<open>unregisterObservable\<close> unsubscribes and deletes one entry.
\<close>

definition init :: "comp \<Rightarrow> world \<Rightarrow> world" where
  "init component w =
     (if componentRegistrations w component \<noteq> None then w
      else
        let r = nextRef w;
            compReg = \<lparr>promises = [], observables = [], recentlyUsedObservables = [],
                       origMethods = \<lparr>connectedCallback = connectedCallback (components w component),
                                      disconnectedCallback = disconnectedCallback (components w component),
                                      render = render (components w component)\<rparr>\<rparr>
        in w\<lparr>nextRef := Suc r,
             regs := (regs w)(r := compReg),
             componentRegistrations := (componentRegistrations w)(component \<mapsto> r),
             components := (components w)(component :=
               \<lparr>connectedCallback = WConnected component r (connectedCallback (origMethods compReg)),
                disconnectedCallback = WDisconnected component r (disconnectedCallback (origMethods compReg)),
                render = WRender component r (render (origMethods compReg))\<rparr>)\<rparr>)"

definition destroy :: "comp \<Rightarrow> world \<Rightarrow> world" where
  "destroy component w =
     (case componentRegistrations w component of
        None \<Rightarrow> w
      | Some r \<Rightarrow>
          let compReg = regs w r;
              w1 = fold (\<lambda>(obs, oreg) s. unsubscribe (subscription (obsRegs s oreg)) s) (observables compReg) w;
              w2 = w1\<lparr>componentRegistrations := (componentRegistrations w1)(component := None)\<rparr>
          in w2\<lparr>components := (components w2)(component :=
               \<lparr>connectedCallback = connectedCallback (origMethods compReg),
                disconnectedCallback = disconnectedCallback (origMethods compReg),
                render = render (origMethods compReg)\<rparr>)\<rparr>)"

definition unregisterObservable :: "comp \<Rightarrow> jsval \<Rightarrow> world \<Rightarrow> world" where
  "unregisterObservable component observable w =
     (case componentRegistrations w component of
        None \<Rightarrow> w
      | Some r \<Rightarrow>
          let w1 = (case map_of (observables (regs w r)) observable of
                      None \<Rightarrow> w
                    | Some oreg \<Rightarrow> unsubscribe (subscription (obsRegs w oreg)) w)
          in updReg r (\<lambda>cr. cr\<lparr>observables := map_delete observable (observables cr)\<rparr>) w1)"

definition getComponentRegistration :: "comp \<Rightarrow> world \<Rightarrow> ref \<times> world" where
  "getComponentRegistration component w =
     (let w1 = (if componentRegistrations w component = None then init component w else w)
      in (the (componentRegistrations w1 component), w1))"

text \<open>
  The continuation given to \<open>promise.then\<close>. It takes a rest parameter, so \<open>res\<close> is
  the array of its arguments, and a promise calls it with the one settled value.
\<close>

definition onSettled :: "jsval \<Rightarrow> ref \<Rightarrow> comp \<Rightarrow> jsval \<Rightarrow> world \<Rightarrow> world" where
  "onSettled promise r component v w =
     forceUpdate component
       (updReg r (\<lambda>cr. cr\<lparr>promises := map_set promise (JArr [v]) (promises cr)\<rparr>) w)"

definition getPromiseValue :: "jsval \<Rightarrow> world \<Rightarrow> jsval \<times> world" where
  "getPromiseValue promise w =
     (let component = renderingRef w;
          (r, w1) = getComponentRegistration component w;
          w2 = (if \<not> map_has promise (promises (regs w1 r))
                then (updReg r (\<lambda>cr. cr\<lparr>promises := map_set promise Null (promises cr)\<rparr>) w1)
                       \<lparr>thens := thens w1 @ [(promise, r, component)]\<rparr>
                else w1)
      in (map_get promise (promises (regs w2 r)), w2))"

text \<open>The callback given to \<open>obs$.subscribe\<close>; \<open>oreg\<close> is the captured \<open>observableReg\<close>.\<close>

definition onEmit :: "oref \<Rightarrow> comp \<Rightarrow> jsval \<Rightarrow> world \<Rightarrow> world" where
  "onEmit oreg component v w =
     forceUpdate component (w\<lparr>obsRegs := (obsRegs w)(oreg := (obsRegs w oreg)\<lparr>result := v\<rparr>)\<rparr>)"

text \<open>
  \<open>obs$.subscribe(callback)\<close>: the observable creates the subscription, registers the
  subscriber, emits what it emits synchronously, and returns the subscription. The fresh
  \<open>observableReg\<close> object is allocated before the call; its \<open>subscription\<close> field is
  assigned when \<open>subscribe\<close> returns and is read by nothing before that, so the object
  is allocated with the handle that \<open>subscribe\<close> is going to return.
\<close>

definition getObservableValue :: "jsval \<Rightarrow> world \<Rightarrow> jsval \<times> world" where
  "getObservableValue obs w =
     (let component = renderingRef w;
          (r, w1) = getComponentRegistration component w;
          w2 = updReg r (\<lambda>cr. cr\<lparr>recentlyUsedObservables := recentlyUsedObservables cr @ [obs]\<rparr>) w1;
          w3 = (if \<not> map_has obs (observables (regs w2 r))
                then
                  let oreg = nextObsReg w2;
                      sb = nextSub w2;
                      w4 = w2\<lparr>nextObsReg := Suc oreg, nextSub := Suc sb,
                              obsRegs := (obsRegs w2)(oreg := \<lparr>subscription = sb, result = Undefined\<rparr>),
                              subscribers := subscribers w2 @ [(sb, obs, oreg, component)]\<rparr>;
                      w5 = fold (onEmit oreg component) (syncEmits w4 obs) w4
                  in updReg r (\<lambda>cr. cr\<lparr>observables := map_set obs oreg (observables cr)\<rparr>) w5
                else w2)
      in (case map_of (observables (regs w3 r)) obs of
            None \<Rightarrow> Undefined
          | Some oreg \<Rightarrow> result (obsRegs w3 oreg), w3))"

text \<open>
  The outcome of a call: the value it returns or the exception it throws, and the world it
  leaves behind.
\<close>

type_synonym outcome = "(error + jsval) \<times> world"

definition getAsyncValue :: "jsval \<Rightarrow> world \<Rightarrow> outcome" where
  "getAsyncValue obj w =
     (case isPromise obj of
        Inl e \<Rightarrow> (Inl e, w)
      | Inr True \<Rightarrow> (case getPromiseValue obj w of (v, w1) \<Rightarrow> (Inr v, w1))
      | Inr False \<Rightarrow>
          (case isSubscribable obj of
             Inl e \<Rightarrow> (Inl e, w)
           | Inr True \<Rightarrow> (case getObservableValue obj w of (v, w1) \<Rightarrow> (Inr v, w1))
           | Inr False \<Rightarrow> (Inr Undefined, w\<lparr>consoleErrors := consoleErrors w @ [obj]\<rparr>)))"

definition async :: "jsval \<Rightarrow> world \<Rightarrow> outcome" where
  "async obj w = getAsyncValue obj w"

section \<open>Running hooks\<close>

primrec run :: "rprog \<Rightarrow> world \<Rightarrow> outcome" where
  "run (Return v) = (\<lambda>w. (Inr v, w))"
| "run (Read obj k) =
     (\<lambda>w. case async obj w of (Inl e, w1) \<Rightarrow> (Inl e, w1) | (Inr x, w1) \<Rightarrow> run (k x) w1)"

text \<open>The values that a render function passes to \<open>async\<close>, in order.\<close>

primrec reads :: "rprog \<Rightarrow> world \<Rightarrow> jsval list" where
  "reads (Return v) = (\<lambda>w. [])"
| "reads (Read obj k) =
     (\<lambda>w. obj # (case async obj w of (Inl e, w1) \<Rightarrow> [] | (Inr x, w1) \<Rightarrow> reads (k x) w1))"

text \<open>
  Calling a hook value; calling \<open>undefined\<close> is a \<open>TypeError\<close>. An exception of the
  original hook leaves the wrapper at once.
\<close>

fun callHook :: "hook \<Rightarrow> world \<Rightarrow> outcome" where
  "callHook Absent w = (Inl TypeError, w)"
| "callHook (UserFn n body) w = run body (w\<lparr>userCalls := userCalls w @ [n]\<rparr>)"
| "callHook (WConnected component r orig) w =
     (let w1 = init component w
      in if present orig
         then (case callHook orig w1 of (Inl e, w2) \<Rightarrow> (Inl e, w2) | (Inr x, w2) \<Rightarrow> (Inr Undefined, w2))
         else (Inr Undefined, w1))"
| "callHook (WDisconnected component r orig) w =
     (let w1 = destroy component w
      in if present orig
         then (case callHook orig w1 of (Inl e, w2) \<Rightarrow> (Inl e, w2) | (Inr x, w2) \<Rightarrow> (Inr Undefined, w2))
         else (Inr Undefined, w1))"
| "callHook (WRender component r orig) w =
     (if \<not> present orig then (Inr Undefined, w)
      else
        let w1 = updReg r (\<lambda>cr. cr\<lparr>recentlyUsedObservables := []\<rparr>) w
        in case callHook orig w1 of
             (Inl e, w2) \<Rightarrow> (Inl e, w2)
           | (Inr renderResult, w2) \<Rightarrow>
               let unused = filter (\<lambda>obs. obs \<notin> set (recentlyUsedObservables (regs w2 r)))
                                   (map fst (observables (regs w2 r)));
                   w3 = fold (unregisterObservable component) unused w2;
                   w4 = (if recentlyUsedObservables (regs w3 r) = [] \<and> promises (regs w3 r) = []
                         then destroy component w3 else w3)
               in (Inr renderResult, w4))"

section \<open>The host and the environment\<close>

text \<open>
  The host calls a hook of a component if the slot holds one; while it renders a
  component, \<open>getRenderingRef()\<close> is that component.
\<close>

definition hostRender :: "comp \<Rightarrow> world \<Rightarrow> outcome" where
  "hostRender c w =
     (let w0 = w\<lparr>renderingRef := c\<rparr>
      in if present (render (components w0 c)) then callHook (render (components w0 c)) w0
         else (Inr Undefined, w0))"

definition hostConnect :: "comp \<Rightarrow> world \<Rightarrow> world" where
  "hostConnect c w =
     (if present (connectedCallback (components w c))
      then snd (callHook (connectedCallback (components w c)) w) else w)"

definition hostDisconnect :: "comp \<Rightarrow> world \<Rightarrow> world" where
  "hostDisconnect c w =
     (if present (disconnectedCallback (components w c))
      then snd (callHook (disconnectedCallback (components w c)) w) else w)"

text \<open>
  A promise delivers its value \<open>v\<close>: the continuations attached to it so far run in
  order, each once, and are dropped. A continuation never runs inside the \<open>then\<close> call
  that attaches it; for a promise that had settled before, this is the later job that runs
  the continuations attached since.
\<close>

definition settle :: "jsval \<Rightarrow> jsval \<Rightarrow> world \<Rightarrow> world" where
  "settle promise v w =
     fold (\<lambda>(p, r, c) s. if p = promise then onSettled p r c v s else s) (thens w)
          (w\<lparr>thens := filter (\<lambda>(p, r, c). p \<noteq> promise) (thens w)\<rparr>)"

text \<open>
  An observable emits \<open>v\<close>: the callback of every subscriber of it whose subscription was
  not unsubscribed is called, in the order of subscription. Nothing is delivered through a
  subscription after \<open>unsubscribe\<close>.
\<close>

definition deliver :: "sub \<times> jsval \<times> oref \<times> comp \<Rightarrow> jsval \<Rightarrow> world \<Rightarrow> world" where
  "deliver sbr v w =
     (case sbr of (sb, obs, oreg, c) \<Rightarrow> if sb \<in> set (unsubscribed w) then w else onEmit oreg c v w)"

definition emit :: "jsval \<Rightarrow> jsval \<Rightarrow> world \<Rightarrow> world" where
  "emit obs v w =
     fold (\<lambda>sbr s. if fst (snd sbr) = obs then deliver sbr v s else s) (subscribers w) w"

text \<open>The world before anything has happened, with components that have no hooks.\<close>

definition emptyWorld :: world where
  "emptyWorld =
     \<lparr>componentRegistrations = (\<lambda>c. None),
      regs = (\<lambda>r. \<lparr>promises = [], observables = [], recentlyUsedObservables = [],
                   origMethods = \<lparr>connectedCallback = Absent, disconnectedCallback = Absent, render = Absent\<rparr>\<rparr>),
      obsRegs = (\<lambda>a. \<lparr>subscription = 0, result = Undefined\<rparr>),
      components = (\<lambda>c. \<lparr>connectedCallback = Absent, disconnectedCallback = Absent, render = Absent\<rparr>),
      renderingRef = 0,
      nextRef = 0,
      nextObsReg = 0,
      nextSub = 0,
      thens = [],
      subscribers = [],
      unsubscribed = [],
      syncEmits = (\<lambda>obs. []),
      forceUpdates = [],
      consoleErrors = [],
      userCalls = []\<rparr>"

section \<open>Render passes, emissions and events\<close>

text \<open>An observable, as \<open>getAsyncValue\<close> classifies it: not then-capable, subscribe-capable.\<close>

definition isStream :: "jsval \<Rightarrow> bool" where
  "isStream obj = (isPromise obj = Inr False \<and> isSubscribable obj = Inr True)"

text \<open>
  The world in which the wrapper of a render function calls the original function \<open>n\<close>:
  \<open>recentlyUsedObservables\<close> of the registration \<open>r\<close> is empty and the call of \<open>n\<close> is
  logged.
\<close>

definition passStart :: "ref \<Rightarrow> nat \<Rightarrow> world \<Rightarrow> world" where
  "passStart r n w =
     (updReg r (\<lambda>cr. cr\<lparr>recentlyUsedObservables := []\<rparr>) w)\<lparr>userCalls := userCalls w @ [n]\<rparr>"

text \<open>
  The render function of a component is the author's function \<open>n\<close> with body \<open>body\<close>:
  the slot holds it while the component is not registered, and the wrapper around it while
  the component is registered.
\<close>

definition rendersWith :: "comp \<Rightarrow> nat \<Rightarrow> rprog \<Rightarrow> world \<Rightarrow> bool" where
  "rendersWith c n body w =
     (case componentRegistrations w c of
        None \<Rightarrow> render (components w c) = UserFn n body
      | Some r \<Rightarrow> render (components w c) = WRender c r (UserFn n body))"

text \<open>The values that a render pass of such a component passes to \<open>async\<close>.\<close>

definition passReads :: "comp \<Rightarrow> nat \<Rightarrow> rprog \<Rightarrow> world \<Rightarrow> jsval list" where
  "passReads c n body w =
     (case componentRegistrations w c of
        None \<Rightarrow> reads body (w\<lparr>renderingRef := c, userCalls := userCalls w @ [n]\<rparr>)
      | Some r \<Rightarrow> reads body (passStart r n (w\<lparr>renderingRef := c\<rparr>)))"

text \<open>The world after a render pass of a component.\<close>

definition pass :: "comp \<Rightarrow> world \<Rightarrow> world" where
  "pass c w = snd (hostRender c w)"

text \<open>The subscribers that an emission of an observable reaches.\<close>

definition reached :: "jsval \<Rightarrow> world \<Rightarrow> (sub \<times> jsval \<times> oref \<times> comp) list" where
  "reached obs w =
     filter (\<lambda>sbr. fst (snd sbr) = obs \<and> fst sbr \<notin> set (unsubscribed w)) (subscribers w)"

text \<open>
  What the values \<open>vs\<close>, emitted in this order, leave in the registration object of an
  observable.
\<close>

definition cached :: "jsval list \<Rightarrow> jsval" where
  "cached vs = (if vs = [] then Undefined else last vs)"

text \<open>What the environment does between two render passes: promises settle, observables emit.\<close>

datatype envEvent = Settles jsval jsval | Emits jsval jsval

fun envStep :: "envEvent \<Rightarrow> world \<Rightarrow> world" where
  "envStep (Settles p v) w = settle p v w"
| "envStep (Emits s v) w = emit s v w"

text \<open>What the host and the environment do to a world.\<close>

datatype event = Render comp | Connect comp | Disconnect comp | Env envEvent

fun step :: "event \<Rightarrow> world \<Rightarrow> world" where
  "step (Render c) w = pass c w"
| "step (Connect c) w = hostConnect c w"
| "step (Disconnect c) w = hostDisconnect c w"
| "step (Env e) w = envStep e w"

section \<open>Well-formed worlds\<close>

text \<open>
  What holds of every world that the module and its environment can reach: registration
  objects are allocated below \<open>nextRef\<close>, two components never share one, and the keys
  of an \<open>observables\<close> map are distinct; subscriptions are allocated below
  \<open>nextSub\<close>, one per subscriber; a subscriber whose subscription was not unsubscribed
  belongs to an entry of the \<open>observables\<close> map of its component's registration, and
  every such entry has its subscriber, not unsubscribed.
\<close>

definition refsOk :: "world \<Rightarrow> bool" where
  "refsOk w =
     ((\<forall>c r. componentRegistrations w c = Some r \<longrightarrow> r < nextRef w)
      \<and> (\<forall>c c' r. componentRegistrations w c = Some r \<and> componentRegistrations w c' = Some r \<longrightarrow> c = c')
      \<and> (\<forall>c r. componentRegistrations w c = Some r \<longrightarrow> distinct (map fst (observables (regs w r)))))"

definition subsOk :: "world \<Rightarrow> bool" where
  "subsOk w =
     ((\<forall>(sb, obs, oreg, c) \<in> set (subscribers w). sb < nextSub w \<and> oreg < nextObsReg w)
      \<and> distinct (map fst (subscribers w))
      \<and> (\<forall>sb \<in> set (unsubscribed w). sb < nextSub w))"

definition liveBound :: "world \<Rightarrow> bool" where
  "liveBound w =
     (\<forall>(sb, obs, oreg, c) \<in> set (subscribers w). sb \<notin> set (unsubscribed w) \<longrightarrow>
        (\<exists>r. componentRegistrations w c = Some r
             \<and> (obs, oreg) \<in> set (observables (regs w r))
             \<and> subscription (obsRegs w oreg) = sb))"

definition boundLive :: "world \<Rightarrow> bool" where
  "boundLive w =
     (\<forall>c r obs oreg. componentRegistrations w c = Some r
          \<and> (obs, oreg) \<in> set (observables (regs w r)) \<longrightarrow>
        (subscription (obsRegs w oreg), obs, oreg, c) \<in> set (subscribers w)
        \<and> subscription (obsRegs w oreg) \<notin> set (unsubscribed w))"

definition wf :: "world \<Rightarrow> bool" where
  "wf w = (refsOk w \<and> subsOk w \<and> liveBound w \<and> boundLive w)"

text \<open>
  How a world changes while a registered component with registration \<open>r\<close> reads:
  \<open>xs\<close> are the observables it read.
\<close>

definition passFrame :: "ref \<Rightarrow> jsval list \<Rightarrow> world \<Rightarrow> world \<Rightarrow> bool" where
  "passFrame r xs w w' =
     (componentRegistrations w' = componentRegistrations w
      \<and> renderingRef w' = renderingRef w
      \<and> components w' = components w
      \<and> unsubscribed w' = unsubscribed w
      \<and> recentlyUsedObservables (regs w' r) = recentlyUsedObservables (regs w r) @ xs
      \<and> set (map fst (observables (regs w' r))) = set (map fst (observables (regs w r))) \<union> set xs
      \<and> (\<forall>obs oreg. obs \<notin> set xs \<longrightarrow>
            ((obs, oreg) \<in> set (observables (regs w' r))) = ((obs, oreg) \<in> set (observables (regs w r))))
      \<and> origMethods (regs w' r) = origMethods (regs w r)
      \<and> (promises (regs w r) \<noteq> [] \<longrightarrow> promises (regs w' r) \<noteq> [])
      \<and> nextObsReg w \<le> nextObsReg w'
      \<and> (\<forall>oreg < nextObsReg w. subscription (obsRegs w' oreg) = subscription (obsRegs w oreg)))"

text \<open>
  How a world changes when \<open>unregisterObservable\<close> is called for each observable of the
  list \<open>unused\<close>.
\<close>

definition reapFrame :: "ref \<Rightarrow> jsval list \<Rightarrow> world \<Rightarrow> world \<Rightarrow> bool" where
  "reapFrame r unused w w' =
     (componentRegistrations w' = componentRegistrations w
      \<and> components w' = components w
      \<and> obsRegs w' = obsRegs w
      \<and> forceUpdates w' = forceUpdates w
      \<and> subscribers w' = subscribers w
      \<and> promises (regs w' r) = promises (regs w r)
      \<and> recentlyUsedObservables (regs w' r) = recentlyUsedObservables (regs w r)
      \<and> origMethods (regs w' r) = origMethods (regs w r)
      \<and> observables (regs w' r) = filter (\<lambda>p. fst p \<notin> set unused) (observables (regs w r))
      \<and> set (unsubscribed w') = set (unsubscribed w) \<union>
           {subscription (obsRegs w oreg) | obs oreg.
              obs \<in> set unused \<and> (obs, oreg) \<in> set (observables (regs w r))})"

text \<open>
  What the reads of a registered component with registration \<open>r\<close> keep: the entries of
  its \<open>observables\<close> map, the registration objects allocated so far, and the
  subscribers so far; new subscribers are for observables that were not registered.
\<close>

definition readsKeep :: "ref \<Rightarrow> world \<Rightarrow> world \<Rightarrow> bool" where
  "readsKeep r w w' =
     (set (observables (regs w r)) \<subseteq> set (observables (regs w' r))
      \<and> nextObsReg w \<le> nextObsReg w'
      \<and> (\<forall>oreg < nextObsReg w. obsRegs w' oreg = obsRegs w oreg)
      \<and> (\<exists>ys. subscribers w' = subscribers w @ ys
              \<and> (\<forall>sbr \<in> set ys. fst (snd sbr) \<notin> fst ` set (observables (regs w r)))))"

text \<open>
  The values that a render function passes to \<open>async\<close>, each with what \<open>async\<close>
  returned.
\<close>

primrec answers :: "rprog \<Rightarrow> world \<Rightarrow> (jsval \<times> jsval) list" where
  "answers (Return v) = (\<lambda>w. [])"
| "answers (Read obj k) =
     (\<lambda>w. case async obj w of (Inl e, w1) \<Rightarrow> [] | (Inr x, w1) \<Rightarrow> (obj, x) # answers (k x) w1)"

text \<open>The reads of a render pass of a component, each with what it returned.\<close>

definition passAnswers :: "comp \<Rightarrow> nat \<Rightarrow> rprog \<Rightarrow> world \<Rightarrow> (jsval \<times> jsval) list" where
  "passAnswers c n body w =
     (case componentRegistrations w c of
        None \<Rightarrow> answers body (w\<lparr>renderingRef := c, userCalls := userCalls w @ [n]\<rparr>)
      | Some r \<Rightarrow> answers body (passStart r n (w\<lparr>renderingRef := c\<rparr>)))"

text \<open>
  What can happen after the first render pass in which a component read an observable:
  the component renders again, a promise settles or an observable emits.
  \<open>emissionsOf s\<close> are the values that \<open>s\<close> emitted, and \<open>passesRead\<close> says that every
  render pass among the occurrences reads \<open>s\<close>.
\<close>

datatype occurrence = PassAgain | Happens envEvent

fun occur :: "comp \<Rightarrow> occurrence \<Rightarrow> world \<Rightarrow> world" where
  "occur c PassAgain w = pass c w"
| "occur c (Happens e) w = envStep e w"

fun emissionsOf :: "jsval \<Rightarrow> occurrence list \<Rightarrow> jsval list" where
  "emissionsOf s [] = []"
| "emissionsOf s (Happens (Emits s' v) # os) = (if s' = s then v # emissionsOf s os else emissionsOf s os)"
| "emissionsOf s (oc # os) = emissionsOf s os"

fun passesRead :: "comp \<Rightarrow> jsval \<Rightarrow> nat \<Rightarrow> rprog \<Rightarrow> occurrence list \<Rightarrow> world \<Rightarrow> bool" where
  "passesRead c s n body [] w = True"
| "passesRead c s n body (oc # os) w =
     ((case oc of PassAgain \<Rightarrow> s \<in> set (passReads c n body w) | Happens e \<Rightarrow> True)
      \<and> passesRead c s n body os (occur c oc w))"

section \<open>A concrete component\<close>

text \<open>
  A promise, an observable, an object that has both capabilities, and a component whose
  render function reads one source and returns what it got.
\<close>

definition pX :: jsval where
  "pX = JObj 1 [(''then'', JFun 1)]"

definition sA :: jsval where
  "sA = JObj 2 [(''subscribe'', JFun 2)]"

definition pBoth :: jsval where
  "pBoth = JObj 3 [(''then'', JFun 3), (''subscribe'', JFun 4)]"

definition readOne :: "jsval \<Rightarrow> rprog" where
  "readOne src = Read src (\<lambda>x. Return x)"

definition world0 :: "rprog \<Rightarrow> world" where
  "world0 body =
     emptyWorld\<lparr>components := (components emptyWorld)
       (0 := \<lparr>connectedCallback = Absent, disconnectedCallback = Absent, render = UserFn 7 body\<rparr>)\<rparr>"

text \<open>The component after its first render, which read the observable, or the promise.\<close>

definition worldS :: world where
  "worldS = snd (hostRender 0 (world0 (readOne sA)))"

definition worldP :: world where
  "worldP = snd (hostRender 0 (world0 (readOne pX)))"

definition otherHooks :: ComponentInterface where
  "otherHooks =
     \<lparr>connectedCallback = UserFn 8 (Return Undefined),
      disconnectedCallback = UserFn 9 (Return Undefined),
      render = UserFn 10 (Return Null)\<rparr>"

definition worldSync :: world where
  "worldSync = (world0 (readOne sA))\<lparr>syncEmits := (\<lambda>obs. [JNum 1, JNum 2])\<rparr>"

definition worldNoRender :: world where
  "worldNoRender = snd (async sA emptyWorld)"

text \<open>
  A render function that reads the promise and, as long as the promise is unresolved, the
  observable.
\<close>

definition bodyQ :: rprog where
  "bodyQ = Read pX (\<lambda>x. case x of Null \<Rightarrow> Read sA Return | _ \<Rightarrow> Return x)"

definition worldQ :: world where
  "worldQ = fold envStep [Settles pX (JStr ''X'')] (pass 0 (world0 bodyQ))"

text \<open>
  A world before the module has done anything: components with their hooks and
  observables with their behaviour, and nothing registered.
\<close>

definition startWorld :: "(comp \<Rightarrow> ComponentInterface) \<Rightarrow> (jsval \<Rightarrow> jsval list) \<Rightarrow> world" where
  "startWorld cs se = emptyWorld\<lparr>components := cs, syncEmits := se\<rparr>"

text \<open>
  A second observable, and a render function that reads it and, unless it emitted \<open>null\<close>
  last, the observable \<open>sA\<close>.
\<close>

definition sB :: jsval where
  "sB = JObj 5 [(''subscribe'', JFun 5)]"

definition bodyT :: rprog where
  "bodyT = Read sB (\<lambda>x. case x of Null \<Rightarrow> Return x | _ \<Rightarrow> Read sA Return)"

text \<open>
  After the first pass of that component: \<open>sA\<close> emits, \<open>sB\<close> emits \<open>null\<close>, the
  component renders without reading \<open>sA\<close>, and \<open>sB\<close> emits a number.
\<close>

definition occurrencesT :: "occurrence list" where
  "occurrencesT = [Happens (Emits sA (JNum 1)), Happens (Emits sB Null), PassAgain,
                   Happens (Emits sB (JNum 2))]"

definition worldT :: world where
  "worldT = fold (occur 0) occurrencesT (pass 0 (world0 bodyT))"

text \<open>Occurrences in which every render pass reads \<open>sA\<close>.\<close>

definition someOccurrences :: "occurrence list" where
  "someOccurrences = [Happens (Emits sA (JNum 1)), PassAgain, Happens (Emits sB (JNum 2)),
                      Happens (Settles pX (JStr ''X'')), Happens (Emits sA (JNum 3)), PassAgain]"

lemmas scenario_defs = pX_def sA_def pBoth_def readOne_def world0_def worldS_def worldP_def
  emptyWorld_def otherHooks_def worldSync_def

lemmas model_defs = hostRender_def hostConnect_def hostDisconnect_def settle_def emit_def
  deliver_def async_def getAsyncValue_def getObservableValue_def getPromiseValue_def
  onEmit_def onSettled_def getComponentRegistration_def unregisterObservable_def destroy_def
  init_def updReg_def forceUpdate_def unsubscribe_def isPromise_def isSubscribable_def
  map_has_def map_get_def map_delete_def Let_def

lemmas pass_defs = pass_def passReads_def passAnswers_def passStart_def rendersWith_def
  sB_def bodyT_def occurrencesT_def worldT_def someOccurrences_def

lemma ComponentInterface_eta [simp]:
  "\<lparr>connectedCallback = connectedCallback x, disconnectedCallback = disconnectedCallback x,
    render = render x\<rparr> = (x::ComponentInterface)"
  by (cases x) simp

lemma worldS_registered: "componentRegistrations worldS 0 = Some 0"
  by (simp add: scenario_defs model_defs)

lemma worldS_origMethods:
  "origMethods (regs worldS 0) =
     \<lparr>connectedCallback = Absent, disconnectedCallback = Absent, render = UserFn 7 (readOne sA)\<rparr>"
  by (simp add: scenario_defs model_defs)

lemma worldS_observables: "observables (regs worldS 0) = [(sA, 0)]"
  by (simp add: scenario_defs model_defs)

section \<open>Facts about the association lists\<close>

lemma map_of_map_set: "map_of (map_set k v m) = (map_of m)(k \<mapsto> v)"
  by (induction m) (auto simp: fun_eq_iff)

lemma map_of_map_delete: "map_of (map_delete k m) = (map_of m)(k := None)"
  by (induction m) (auto simp: map_delete_def fun_eq_iff)

lemma keys_map_delete: "map fst (map_delete k m) = filter (\<lambda>x. x \<noteq> k) (map fst m)"
  by (induction m) (auto simp: map_delete_def)

lemma keys_map_set:
  "map fst (map_set k v m) = (if k \<in> set (map fst m) then map fst m else map fst m @ [k])"
  by (induction m) auto

lemma map_get_map_set: "map_get k' (map_set k v m) = (if k' = k then v else map_get k' m)"
  by (simp add: map_get_def map_of_map_set)

lemma map_has_map_set: "map_has k' (map_set k v m) = (k' = k \<or> map_has k' m)"
  by (auto simp: map_has_def map_of_map_set)

lemma map_has_keys: "map_has k m = (k \<in> set (map fst m))"
  by (induction m) (auto simp: map_has_def)

section \<open>The source classifier\<close>

lemma isPromise_no_throw: "isPromise obj \<noteq> Inl e"
  by (cases obj) (auto simp: isPromise_def)

lemma isSubscribable_no_throw: "isSubscribable obj \<noteq> Inl e"
  by (cases obj) (auto simp: isSubscribable_def)

text \<open>
  Claim C9. A value that is neither then-capable nor subscribe-capable, \<open>undefined\<close> and
  \<open>null\<close> among them, makes \<open>async\<close> log the value with \<open>console.error\<close> and return
  \<open>undefined\<close>; nothing else of the world changes, so no registration is created. For a
  then-capable value the promise path is taken, whether or not the value is also
  subscribe-capable. No property access of the classification throws, and \<open>async\<close>
  never throws.
\<close>

theorem invalid_source_logged_and_promise_first:
  "(isPromise obj = Inr False \<and> isSubscribable obj = Inr False \<longrightarrow>
      async obj w = (Inr Undefined, w\<lparr>consoleErrors := consoleErrors w @ [obj]\<rparr>))
   \<and> (isPromise obj = Inr True \<longrightarrow>
      async obj w = (Inr (fst (getPromiseValue obj w)), snd (getPromiseValue obj w)))
   \<and> isPromise Undefined = Inr False \<and> isSubscribable Undefined = Inr False
   \<and> isPromise Null = Inr False \<and> isSubscribable Null = Inr False
   \<and> (\<forall>e. isPromise obj \<noteq> Inl e \<and> isSubscribable obj \<noteq> Inl e \<and> fst (async obj w) \<noteq> Inl e)"
  apply (intro conjI impI allI)
  apply (simp_all add: async_def getAsyncValue_def isPromise_no_throw isSubscribable_no_throw
                  split: prod.splits sum.splits bool.splits)
  apply (simp_all add: isPromise_def isSubscribable_def)
  done

theorem invalid_source_logged_and_promise_first_witness:
  "isPromise (JNum 5) = Inr False \<and> isSubscribable (JNum 5) = Inr False
   \<and> async (JNum 5) emptyWorld = (Inr Undefined, emptyWorld\<lparr>consoleErrors := [JNum 5]\<rparr>)
   \<and> isPromise pBoth = Inr True \<and> isSubscribable pBoth = Inr True
   \<and> async pBoth emptyWorld = (Inr Null, snd (getPromiseValue pBoth emptyWorld))"
  using invalid_source_logged_and_promise_first [of "JNum 5" emptyWorld]
        invalid_source_logged_and_promise_first [of pBoth emptyWorld]
  by (simp add: scenario_defs model_defs)

section \<open>Installing and destroying a registration\<close>

lemma fold_unsubscribe:
  "fold (\<lambda>(obs, oreg) s. unsubscribe (subscription (obsRegs s oreg)) s) xs w =
     w\<lparr>unsubscribed := rev (map (\<lambda>(obs, oreg). subscription (obsRegs w oreg)) xs) @ unsubscribed w\<rparr>"
  by (induction xs arbitrary: w) (auto simp: unsubscribe_def)

lemma destroy_Some:
  "componentRegistrations w c = Some r \<Longrightarrow>
   destroy c w =
     w\<lparr>unsubscribed := rev (map (\<lambda>(obs, oreg). subscription (obsRegs w oreg))
                                (observables (regs w r))) @ unsubscribed w,
       componentRegistrations := (componentRegistrations w)(c := None),
       components := (components w)(c := origMethods (regs w r))\<rparr>"
  by (simp add: destroy_def fold_unsubscribe Let_def)

lemma destroy_None: "componentRegistrations w c = None \<Longrightarrow> destroy c w = w"
  by (simp add: destroy_def)

lemma init_Some: "componentRegistrations w c = Some r \<Longrightarrow> init c w = w"
  by (simp add: init_def)

text \<open>
  Claim C6. Destroying the registration of a component unsubscribes the subscription of
  every observable registered for it, deletes the component from
  \<open>componentRegistrations\<close> and puts back the three hooks saved in \<open>origMethods\<close>,
  which are the hooks the component had when \<open>init\<close> ran. \<open>init\<close> on a registered
  component and \<open>destroy\<close> on an unregistered one change nothing. The store maps a
  component to at most one registration by its type.
\<close>

theorem destroy_unsubscribes_and_restores:
  "(componentRegistrations w c = Some r \<longrightarrow>
      (\<forall>(obs, oreg) \<in> set (observables (regs w r)).
          subscription (obsRegs w oreg) \<in> set (unsubscribed (destroy c w)))
    \<and> componentRegistrations (destroy c w) c = None
    \<and> components (destroy c w) c = origMethods (regs w r)
    \<and> init c w = w)
   \<and> (componentRegistrations w c = None \<longrightarrow>
      destroy c w = w
    \<and> componentRegistrations (init c w) c = Some (nextRef w)
    \<and> origMethods (regs (init c w) (nextRef w)) = components w c
    \<and> components (destroy c (init c w)) c = components w c)"
  apply (intro conjI impI)
  apply (auto simp: destroy_Some destroy_None init_Some)[5]
  apply (simp_all add: init_def destroy_def Let_def)
  done

theorem destroy_unsubscribes_and_restores_witness:
  "componentRegistrations worldS 0 = Some 0
   \<and> observables (regs worldS 0) = [(sA, 0)]
   \<and> subscription (obsRegs worldS 0) \<in> set (unsubscribed (destroy 0 worldS))
   \<and> componentRegistrations (destroy 0 worldS) 0 = None
   \<and> render (components (destroy 0 worldS) 0) = UserFn 7 (readOne sA)
   \<and> init 0 worldS = worldS
   \<and> componentRegistrations emptyWorld 0 = None
   \<and> destroy 0 emptyWorld = emptyWorld
   \<and> components (destroy 0 (init 0 emptyWorld)) 0 = components emptyWorld 0"
proof -
  have e: "componentRegistrations emptyWorld 0 = None"
    by (simp add: emptyWorld_def)
  show ?thesis
    using destroy_unsubscribes_and_restores [of worldS 0 0]
          destroy_unsubscribes_and_restores [of emptyWorld 0 0]
          worldS_registered worldS_observables worldS_origMethods e
    by simp
qed

text \<open>
  Claim C10. \<open>destroy\<close> assigns the three saved hooks to the component whatever the
  slots hold at that moment: hooks assigned to the component after \<open>init\<close> are
  discarded, and a slot whose saved hook was \<open>undefined\<close> is set to \<open>undefined\<close>.
\<close>

theorem destroy_overwrites_hooks:
  "(componentRegistrations w c = Some r \<longrightarrow>
      components (destroy c (w\<lparr>components := (components w)(c := h)\<rparr>)) c = origMethods (regs w r))
   \<and> (componentRegistrations w c = None \<longrightarrow>
      components (destroy c ((init c w)\<lparr>components := (components (init c w))(c := h)\<rparr>)) c
        = components w c
    \<and> (connectedCallback (components w c) = Absent \<longrightarrow>
         connectedCallback (components
           (destroy c ((init c w)\<lparr>components := (components (init c w))(c := h)\<rparr>)) c) = Absent)
    \<and> (disconnectedCallback (components w c) = Absent \<longrightarrow>
         disconnectedCallback (components
           (destroy c ((init c w)\<lparr>components := (components (init c w))(c := h)\<rparr>)) c) = Absent)
    \<and> (render (components w c) = Absent \<longrightarrow>
         render (components
           (destroy c ((init c w)\<lparr>components := (components (init c w))(c := h)\<rparr>)) c) = Absent))"
  by (simp add: init_def destroy_def fold_unsubscribe Let_def)

theorem destroy_overwrites_hooks_witness:
  "componentRegistrations worldS 0 = Some 0
   \<and> components (destroy 0 (worldS\<lparr>components := (components worldS)(0 := otherHooks)\<rparr>)) 0
       = \<lparr>connectedCallback = Absent, disconnectedCallback = Absent, render = UserFn 7 (readOne sA)\<rparr>
   \<and> componentRegistrations emptyWorld 0 = None
   \<and> connectedCallback (components emptyWorld 0) = Absent
   \<and> connectedCallback (components
         (destroy 0 ((init 0 emptyWorld)\<lparr>components := (components (init 0 emptyWorld))(0 := otherHooks)\<rparr>)) 0)
       = Absent"
proof -
  have e: "componentRegistrations emptyWorld 0 = None" "connectedCallback (components emptyWorld 0) = Absent"
    by (simp_all add: emptyWorld_def)
  show ?thesis
    using destroy_overwrites_hooks [of worldS 0 0 otherHooks]
          destroy_overwrites_hooks [of emptyWorld 0 0 otherHooks]
          worldS_registered worldS_origMethods e
    by simp
qed

section \<open>The promise path\<close>

lemma getComponentRegistration_Some:
  "componentRegistrations w c = Some r \<Longrightarrow> getComponentRegistration c w = (r, w)"
  by (simp add: getComponentRegistration_def)

lemma getComponentRegistration_None:
  "componentRegistrations w c = None \<Longrightarrow> getComponentRegistration c w = (nextRef w, init c w)"
  by (simp add: getComponentRegistration_def init_def Let_def)

lemma getPromiseValue_first:
  "componentRegistrations w (renderingRef w) = Some r \<Longrightarrow> \<not> map_has p (promises (regs w r)) \<Longrightarrow>
   getPromiseValue p w =
     (Null, (updReg r (\<lambda>cr. cr\<lparr>promises := map_set p Null (promises cr)\<rparr>) w)
              \<lparr>thens := thens w @ [(p, r, renderingRef w)]\<rparr>)"
  by (simp add: getPromiseValue_def getComponentRegistration_Some updReg_def map_get_map_set)

lemma getPromiseValue_again:
  "componentRegistrations w (renderingRef w) = Some r \<Longrightarrow> map_has p (promises (regs w r)) \<Longrightarrow>
   getPromiseValue p w = (map_get p (promises (regs w r)), w)"
  by (simp add: getPromiseValue_def getComponentRegistration_Some)

lemma getPromiseValue_init:
  "getPromiseValue p w = getPromiseValue p (init (renderingRef w) w)"
  by (cases "componentRegistrations w (renderingRef w)")
     (simp_all add: getPromiseValue_def getComponentRegistration_def init_def Let_def)

lemma map_set_idem: "map_set k v (map_set k v m) = map_set k v m"
  by (induction m) auto

lemma fold_onSettled_regs:
  "regs (fold (\<lambda>(p', r', c) s. if p' = p then onSettled p' r' c v s else s) xs w) r =
     (if \<exists>c. (p, r, c) \<in> set xs then (regs w r)\<lparr>promises := map_set p (JArr [v]) (promises (regs w r))\<rparr> else regs w r)"
proof (induction xs arbitrary: w)
  case Nil
  show ?case by simp
next
  case (Cons x xs)
  obtain p' r' c' where x: "x = (p', r', c')" by (cases x) auto
  show ?case
    unfolding x
    by (auto simp: Cons.IH onSettled_def forceUpdate_def updReg_def map_set_idem)
qed

lemma fold_onSettled_other:
  "componentRegistrations (fold (\<lambda>(p', r', c) s. if p' = p then onSettled p' r' c v s else s) xs w) = componentRegistrations w
   \<and> renderingRef (fold (\<lambda>(p', r', c) s. if p' = p then onSettled p' r' c v s else s) xs w) = renderingRef w
   \<and> components (fold (\<lambda>(p', r', c) s. if p' = p then onSettled p' r' c v s else s) xs w) = components w
   \<and> thens (fold (\<lambda>(p', r', c) s. if p' = p then onSettled p' r' c v s else s) xs w) = thens w
   \<and> forceUpdates (fold (\<lambda>(p', r', c) s. if p' = p then onSettled p' r' c v s else s) xs w) =
       forceUpdates w @ map (\<lambda>(p', r', c). c) (filter (\<lambda>(p', r', c). p' = p) xs)"
  by (induction xs arbitrary: w) (auto simp: onSettled_def forceUpdate_def updReg_def)

lemma settle_regs:
  "regs (settle p v w) r =
     (if \<exists>c. (p, r, c) \<in> set (thens w) then (regs w r)\<lparr>promises := map_set p (JArr [v]) (promises (regs w r))\<rparr> else regs w r)"
  by (simp add: settle_def fold_onSettled_regs)

lemma settle_other:
  "componentRegistrations (settle p v w) = componentRegistrations w"
  "renderingRef (settle p v w) = renderingRef w"
  "components (settle p v w) = components w"
  "thens (settle p v w) = filter (\<lambda>(p', r, c). p' \<noteq> p) (thens w)"
  "forceUpdates (settle p v w) = forceUpdates w @ map (\<lambda>(p', r', c). c) (filter (\<lambda>(p', r', c). p' = p) (thens w))"
  by (simp_all add: settle_def fold_onSettled_other)


lemma isPromise_pX: "isPromise pX = Inr True"
  by (simp add: pX_def isPromise_def)

lemma world0_unregistered: "componentRegistrations (world0 body) c = None"
  by (simp add: world0_def emptyWorld_def)

text \<open>
  Claim C1. The component renders and reads the promise, the promise settles with the
  string \<open>X\<close>, the component renders again: the first read returns \<open>null\<close>, the read after
  the settlement returns the array that holds \<open>X\<close>, not \<open>X\<close>, and one re-render was
  requested.
\<close>

theorem settled_promise_read_returns_array:
  "fst (hostRender 0 (world0 (readOne pX))) = Inr Null
   \<and> fst (hostRender 0 (settle pX (JStr ''X'') worldP)) = Inr (JArr [JStr ''X''])
   \<and> fst (hostRender 0 (settle pX (JStr ''X'') worldP)) \<noteq> Inr (JStr ''X'')
   \<and> forceUpdates (settle pX (JStr ''X'') worldP) = [0]"
  by (simp add: scenario_defs model_defs)

text \<open>
  Claim C2, as stated, fails for promises: the component reads the promise and is
  disconnected, which destroys its registration; when the promise settles afterwards, the
  continuation writes into the removed registration object and requests a re-render.
\<close>

theorem late_continuation_counterexample:
  "componentRegistrations (hostDisconnect 0 worldP) 0 = None
   \<and> promises (regs (hostDisconnect 0 worldP) 0) = [(pX, Null)]
   \<and> forceUpdates (hostDisconnect 0 worldP) = []
   \<and> promises (regs (settle pX (JStr ''X'') (hostDisconnect 0 worldP)) 0) = [(pX, JArr [JStr ''X''])]
   \<and> forceUpdates (settle pX (JStr ''X'') (hostDisconnect 0 worldP)) = [0]"
  by (simp add: scenario_defs model_defs)

section \<open>The stream path\<close>

lemma fold_onEmit:
  "fold (onEmit oreg c) vs w =
     w\<lparr>obsRegs := (obsRegs w)(oreg := (obsRegs w oreg)\<lparr>result := (if vs = [] then result (obsRegs w oreg) else last vs)\<rparr>),
       forceUpdates := forceUpdates w @ replicate (length vs) c\<rparr>"
proof (induction vs arbitrary: w)
  case Nil
  show ?case by simp
next
  case (Cons v vs)
  have "fold (onEmit oreg c) (v # vs) w = fold (onEmit oreg c) vs (onEmit oreg c v w)"
    by simp
  also have "\<dots> = (onEmit oreg c v w)\<lparr>obsRegs := (obsRegs (onEmit oreg c v w))(oreg := (obsRegs (onEmit oreg c v w) oreg)
         \<lparr>result := (if vs = [] then result (obsRegs (onEmit oreg c v w) oreg) else last vs)\<rparr>),
       forceUpdates := forceUpdates (onEmit oreg c v w) @ replicate (length vs) c\<rparr>"
    by (rule Cons.IH)
  also have "\<dots> = w\<lparr>obsRegs := (obsRegs w)(oreg := (obsRegs w oreg)
         \<lparr>result := (if v # vs = [] then result (obsRegs w oreg) else last (v # vs))\<rparr>),
       forceUpdates := forceUpdates w @ replicate (length (v # vs)) c\<rparr>"
    by (simp add: onEmit_def forceUpdate_def)
  finally show ?case .
qed

lemma getObservableValue_first:
  assumes "componentRegistrations w (renderingRef w) = Some r"
    and "\<not> map_has obs (observables (regs w r))"
  shows "getObservableValue obs w =
     (if syncEmits w obs = [] then Undefined else last (syncEmits w obs),
      w\<lparr>nextObsReg := Suc (nextObsReg w),
        nextSub := Suc (nextSub w),
        obsRegs := (obsRegs w)(nextObsReg w :=
           \<lparr>subscription = nextSub w,
            result = (if syncEmits w obs = [] then Undefined else last (syncEmits w obs))\<rparr>),
        subscribers := subscribers w @ [(nextSub w, obs, nextObsReg w, renderingRef w)],
        forceUpdates := forceUpdates w @ replicate (length (syncEmits w obs)) (renderingRef w),
        regs := (regs w)(r := (regs w r)
           \<lparr>recentlyUsedObservables := recentlyUsedObservables (regs w r) @ [obs],
            observables := map_set obs (nextObsReg w) (observables (regs w r))\<rparr>)\<rparr>)"
  using assms
  by (simp add: getObservableValue_def getComponentRegistration_Some updReg_def Let_def
                fold_onEmit map_of_map_set)

lemma getObservableValue_again:
  assumes "componentRegistrations w (renderingRef w) = Some r"
    and "map_of (observables (regs w r)) obs = Some oreg"
  shows "getObservableValue obs w =
     (result (obsRegs w oreg),
      updReg r (\<lambda>cr. cr\<lparr>recentlyUsedObservables := recentlyUsedObservables cr @ [obs]\<rparr>) w)"
  using assms
  by (simp add: getObservableValue_def getComponentRegistration_Some updReg_def Let_def map_has_def)

lemma getComponentRegistration_init:
  "getComponentRegistration c (init c w) = getComponentRegistration c w"
  by (cases "componentRegistrations w c")
     (simp_all add: getComponentRegistration_def init_def Let_def)

lemma getObservableValue_init:
  "getObservableValue obs w = getObservableValue obs (init (renderingRef w) w)"
proof -
  have "renderingRef (init (renderingRef w) w) = renderingRef w"
    by (simp add: init_def Let_def)
  then show ?thesis
    by (simp add: getObservableValue_def getComponentRegistration_init)
qed

lemma async_stream:
  "isPromise obs = Inr False \<Longrightarrow> isSubscribable obs = Inr True \<Longrightarrow>
   async obs w = (Inr (fst (getObservableValue obs w)), snd (getObservableValue obs w))"
  by (simp add: async_def getAsyncValue_def split: prod.splits)

lemma async_promise:
  "isPromise p = Inr True \<Longrightarrow>
   async p w = (Inr (fst (getPromiseValue p w)), snd (getPromiseValue p w))"
  by (simp add: async_def getAsyncValue_def split: prod.splits)

lemma init_registers:
  "\<exists>r. componentRegistrations (init c w) c = Some r"
  by (cases "componentRegistrations w c") (auto simp: init_def Let_def)

lemma init_fresh_observables:
  "componentRegistrations w c = None \<Longrightarrow> componentRegistrations (init c w) c = Some r \<Longrightarrow>
   observables (regs (init c w) r) = [] \<and> promises (regs (init c w) r) = []"
  by (auto simp: init_def Let_def)

lemma init_frame:
  "renderingRef (init c w) = renderingRef w"
  "syncEmits (init c w) = syncEmits w"
  "nextObsReg (init c w) = nextObsReg w"
  "nextSub (init c w) = nextSub w"
  "subscribers (init c w) = subscribers w"
  "unsubscribed (init c w) = unsubscribed w"
  "forceUpdates (init c w) = forceUpdates w"
  "obsRegs (init c w) = obsRegs w"
  "thens (init c w) = thens w"
  by (simp_all add: init_def Let_def)

text \<open>
  Claim C8. When an observable that is not registered yet emits synchronously while
  \<open>subscribe\<close> runs, the first \<open>async\<close> of it returns the value emitted (the last one,
  if there are several), the registration object stored for the observable holds the
  subscription that \<open>subscribe\<close> returned together with that value, and a re-render
  was requested for every emission.
\<close>

theorem immediate_emission_kept:
  assumes "isPromise s = Inr False" and "isSubscribable s = Inr True"
    and "\<forall>r. componentRegistrations w (renderingRef w) = Some r \<longrightarrow> \<not> map_has s (observables (regs w r))"
    and "syncEmits w s = vs @ [v]"
  shows "fst (async s w) = Inr v
       \<and> (\<exists>r oreg. componentRegistrations (snd (async s w)) (renderingRef w) = Some r
             \<and> map_of (observables (regs (snd (async s w)) r)) s = Some oreg
             \<and> obsRegs (snd (async s w)) oreg = \<lparr>subscription = nextSub w, result = v\<rparr>
             \<and> (nextSub w, s, oreg, renderingRef w) \<in> set (subscribers (snd (async s w))))
       \<and> forceUpdates (snd (async s w)) = forceUpdates w @ replicate (Suc (length vs)) (renderingRef w)"
proof -
  define c where "c = renderingRef w"
  define w0 where "w0 = init c w"
  obtain r where r: "componentRegistrations w0 c = Some r"
    using init_registers [of c w] by (auto simp: w0_def)
  have rr: "renderingRef w0 = c"
    by (simp add: w0_def c_def init_frame)
  have fresh: "\<not> map_has s (observables (regs w0 r))"
  proof (cases "componentRegistrations w c")
    case None
    then show ?thesis using r init_fresh_observables [of w c r] by (simp add: w0_def map_has_def)
  next
    case (Some r')
    then show ?thesis using r assms(3) by (auto simp: w0_def init_Some c_def)
  qed
  have a: "async s w = (Inr (fst (getObservableValue s w0)), snd (getObservableValue s w0))"
    using async_stream [OF assms(1,2), of w] getObservableValue_init [of s w]
    by (simp add: w0_def c_def)
  have se: "syncEmits w0 s = vs @ [v]"
    by (simp add: w0_def init_frame assms(4))
  note g = getObservableValue_first [of w0 r s, unfolded rr, OF r fresh]
  show ?thesis
    unfolding a g c_def [symmetric]
    using r by (simp add: assms(4) map_of_map_set w0_def init_frame replicate_append_same)
qed

lemma isStream_sA: "isPromise sA = Inr False" "isSubscribable sA = Inr True"
  by (simp_all add: sA_def isPromise_def isSubscribable_def)

theorem immediate_emission_kept_witness:
  "isPromise sA = Inr False \<and> isSubscribable sA = Inr True
   \<and> componentRegistrations worldSync (renderingRef worldSync) = None
   \<and> syncEmits worldSync sA = [JNum 1] @ [JNum 2]
   \<and> fst (async sA worldSync) = Inr (JNum 2)
   \<and> forceUpdates (snd (async sA worldSync)) = [0, 0]"
proof -
  have a: "componentRegistrations worldSync (renderingRef worldSync) = None"
    by (simp add: worldSync_def world0_def emptyWorld_def)
  have b: "syncEmits worldSync sA = [JNum 1] @ [JNum 2]"
    by (simp add: worldSync_def)
  have c: "forceUpdates worldSync = []" "renderingRef worldSync = 0"
    by (simp_all add: worldSync_def world0_def emptyWorld_def)
  show ?thesis
    using immediate_emission_kept [of sA worldSync "[JNum 1]" "JNum 2"] isStream_sA a b c
    by (simp add: numeral_2_eq_2)
qed

section \<open>Well-formedness is kept\<close>

lemma wf_cong:
  assumes "componentRegistrations w' = componentRegistrations w"
    and "nextRef w' = nextRef w" and "nextSub w' = nextSub w" and "nextObsReg w' = nextObsReg w"
    and "subscribers w' = subscribers w" and "unsubscribed w' = unsubscribed w"
    and "\<And>r. observables (regs w' r) = observables (regs w r)"
    and "\<And>oreg. subscription (obsRegs w' oreg) = subscription (obsRegs w oreg)"
  shows "wf w' = wf w"
  using assms by (simp add: wf_def refsOk_def subsOk_def liveBound_def boundLive_def)

lemma wf_emptyWorld: "wf emptyWorld"
  by (simp add: wf_def refsOk_def subsOk_def liveBound_def boundLive_def emptyWorld_def)

lemma wf_init:
  assumes "wf w"
  shows "wf (init c w)"
proof (cases "componentRegistrations w c")
  case (Some r)
  then show ?thesis using assms by (simp add: init_Some)
next
  case None
  have r: "refsOk w" and s: "subsOk w" and l: "liveBound w" and b: "boundLive w"
    using assms by (simp_all add: wf_def)
  have "refsOk (init c w)"
    using r None by (fastforce simp: refsOk_def init_def Let_def less_Suc_eq)
  moreover have "subsOk (init c w)"
    using s None by (simp add: subsOk_def init_def Let_def)
  moreover have "liveBound (init c w)"
    using l r None unfolding liveBound_def refsOk_def
    by (fastforce simp: init_def Let_def)
  moreover have "boundLive (init c w)"
    using b r None unfolding boundLive_def refsOk_def
    by (fastforce simp: init_def Let_def split: if_splits)
  ultimately show ?thesis by (simp add: wf_def)
qed

lemma unregisterObservable_Some:
  "componentRegistrations w c = Some r \<Longrightarrow>
   unregisterObservable c obs w =
     w\<lparr>unsubscribed := (case map_of (observables (regs w r)) obs of
                           None \<Rightarrow> unsubscribed w
                         | Some oreg \<Rightarrow> subscription (obsRegs w oreg) # unsubscribed w),
       regs := (regs w)(r := (regs w r)\<lparr>observables := map_delete obs (observables (regs w r))\<rparr>)\<rparr>"
  by (simp add: unregisterObservable_def updReg_def unsubscribe_def split: option.splits)

lemma unregisterObservable_None:
  "componentRegistrations w c = None \<Longrightarrow> unregisterObservable c obs w = w"
  by (simp add: unregisterObservable_def)

lemma set_map_delete: "set (map_delete k m) = {p \<in> set m. fst p \<noteq> k}"
  by (auto simp: map_delete_def)

lemma distinct_map_delete: "distinct (map fst m) \<Longrightarrow> distinct (map fst (map_delete k m))"
  by (simp add: map_delete_def distinct_map_filter)

lemma map_set_fresh: "k \<notin> set (map fst m) \<Longrightarrow> map_set k v m = m @ [(k, v)]"
  by (induction m) auto

text \<open>Two subscriber entries with the same subscription are the same entry.\<close>

lemma subscriber_unique:
  "subsOk w \<Longrightarrow> (sb, x) \<in> set (subscribers w) \<Longrightarrow> (sb, y) \<in> set (subscribers w) \<Longrightarrow> x = y"
  by (auto simp: subsOk_def dest: eq_key_imp_eq_value)

lemma wf_destroy:
  assumes "wf w"
  shows "wf (destroy c w)"
proof (cases "componentRegistrations w c")
  case None
  then show ?thesis using assms by (simp add: destroy_None)
next
  case (Some r)
  have r: "refsOk w" and s: "subsOk w" and l: "liveBound w" and b: "boundLive w"
    using assms by (simp_all add: wf_def)
  note d = destroy_Some [OF Some]
  have "refsOk (destroy c w)"
    using r by (auto simp: d refsOk_def split: if_splits)
  moreover have "subsOk (destroy c w)"
    using s b Some unfolding subsOk_def boundLive_def
    by (fastforce simp: d)
  moreover have "liveBound (destroy c w)"
    unfolding liveBound_def
  proof (clarify)
    fix sb obs oreg c'
    assume m: "(sb, obs, oreg, c') \<in> set (subscribers (destroy c w))"
      and live: "sb \<notin> set (unsubscribed (destroy c w))"
    from m have m': "(sb, obs, oreg, c') \<in> set (subscribers w)" by (simp add: d)
    from live have live': "sb \<notin> set (unsubscribed w)"
      and nr: "\<forall>(obs', oreg') \<in> set (observables (regs w r)). subscription (obsRegs w oreg') \<noteq> sb"
      by (auto simp: d)
    from l m' live' obtain r' where r': "componentRegistrations w c' = Some r'"
      "(obs, oreg) \<in> set (observables (regs w r'))" "subscription (obsRegs w oreg) = sb"
      unfolding liveBound_def by fastforce
    have "c' \<noteq> c" using r' nr Some by auto
    then show "\<exists>ra. componentRegistrations (destroy c w) c' = Some ra \<and>
            (obs, oreg) \<in> set (observables (regs (destroy c w) ra)) \<and>
            subscription (obsRegs (destroy c w) oreg) = sb"
      using r' by (simp add: d)
  qed
  moreover have "boundLive (destroy c w)"
    unfolding boundLive_def
  proof (intro allI impI, elim conjE)
    fix c' r' obs oreg
    assume a: "componentRegistrations (destroy c w) c' = Some r'"
      and m: "(obs, oreg) \<in> set (observables (regs (destroy c w) r'))"
    from a have c': "c' \<noteq> c" and a': "componentRegistrations w c' = Some r'"
      by (auto simp: d split: if_splits)
    from m have m': "(obs, oreg) \<in> set (observables (regs w r'))" by (simp add: d)
    from b a' m' have e: "(subscription (obsRegs w oreg), obs, oreg, c') \<in> set (subscribers w)"
      and lv: "subscription (obsRegs w oreg) \<notin> set (unsubscribed w)"
      unfolding boundLive_def by blast+
    have "subscription (obsRegs w oreg) \<noteq> subscription (obsRegs w oreg2)"
      if "(obs2, oreg2) \<in> set (observables (regs w r))" for obs2 oreg2
    proof
      assume eq: "subscription (obsRegs w oreg) = subscription (obsRegs w oreg2)"
      from b Some that have "(subscription (obsRegs w oreg2), obs2, oreg2, c) \<in> set (subscribers w)"
        unfolding boundLive_def by blast
      with e eq subscriber_unique [OF s] have "(obs, oreg, c') = (obs2, oreg2, c)" by metis
      with c' show False by simp
    qed
    then show "(subscription (obsRegs (destroy c w) oreg), obs, oreg, c') \<in> set (subscribers (destroy c w))
          \<and> subscription (obsRegs (destroy c w) oreg) \<notin> set (unsubscribed (destroy c w))"
      using e lv by (auto simp: d)
  qed
  ultimately show ?thesis by (simp add: wf_def)
qed


lemma bound_subscription_inj:
  assumes "subsOk w" and "boundLive w"
    and "componentRegistrations w c1 = Some r1" and "(obs1, o1) \<in> set (observables (regs w r1))"
    and "componentRegistrations w c2 = Some r2" and "(obs2, o2) \<in> set (observables (regs w r2))"
    and "subscription (obsRegs w o1) = subscription (obsRegs w o2)"
  shows "obs1 = obs2 \<and> o1 = o2 \<and> c1 = c2"
proof -
  have "(subscription (obsRegs w o1), obs1, o1, c1) \<in> set (subscribers w)"
    using assms(2,3,4) unfolding boundLive_def by blast
  moreover have "(subscription (obsRegs w o1), obs2, o2, c2) \<in> set (subscribers w)"
    using assms(2,5,6,7) unfolding boundLive_def by metis
  ultimately have "(obs1, o1, c1) = (obs2, o2, c2)"
    using subscriber_unique [OF assms(1)] by blast
  then show ?thesis by simp
qed

lemma wf_unregisterObservable:
  assumes "wf w"
  shows "wf (unregisterObservable c obs w)"
proof (cases "componentRegistrations w c")
  case None
  then show ?thesis using assms by (simp add: unregisterObservable_None)
next
  case (Some r)
  have r: "refsOk w" and s: "subsOk w" and l: "liveBound w" and b: "boundLive w"
    using assms by (simp_all add: wf_def)
  have dk: "distinct (map fst (observables (regs w r)))"
    using r Some by (auto simp: refsOk_def)
  define w' where "w' = unregisterObservable c obs w"
  note u = unregisterObservable_Some [OF Some, of obs, folded w'_def]
  have fr: "componentRegistrations w' = componentRegistrations w" "nextRef w' = nextRef w"
    "nextSub w' = nextSub w" "nextObsReg w' = nextObsReg w" "subscribers w' = subscribers w"
    "obsRegs w' = obsRegs w"
    by (simp_all add: u)
  have obs': "observables (regs w' r') =
      (if r' = r then map_delete obs (observables (regs w r)) else observables (regs w r'))" for r'
    by (simp add: u)
  have uns: "set (unsubscribed w') = set (unsubscribed w) \<union>
       {subscription (obsRegs w oreg) | oreg. (obs, oreg) \<in> set (observables (regs w r))}"
  proof (cases "map_of (observables (regs w r)) obs")
    case None
    then have "\<And>oreg. (obs, oreg) \<notin> set (observables (regs w r))"
      by (metis weak_map_of_SomeI option.distinct(1))
    then show ?thesis using None by (simp add: u)
  next
    case (Some o1)
    then have "\<And>oreg. ((obs, oreg) \<in> set (observables (regs w r))) = (oreg = o1)"
      using dk by (metis map_of_eq_Some_iff option.inject)
    then show ?thesis using Some by (simp add: u)
  qed
  have "refsOk w'"
    using r by (auto simp: refsOk_def fr obs' distinct_map_delete)
  moreover have "subsOk w'"
  proof -
    have "sb < nextSub w" if "sb \<in> set (unsubscribed w')" for sb
      using that s b Some unfolding uns subsOk_def boundLive_def by fastforce
    then show ?thesis using s by (auto simp: subsOk_def fr)
  qed
  moreover have "liveBound w'"
    unfolding liveBound_def
  proof (clarify)
    fix sb obs1 oreg c'
    assume m: "(sb, obs1, oreg, c') \<in> set (subscribers w')"
      and live: "sb \<notin> set (unsubscribed w')"
    from m have m': "(sb, obs1, oreg, c') \<in> set (subscribers w)" by (simp add: fr)
    from live have live': "sb \<notin> set (unsubscribed w)"
      and nr: "\<And>o2. (obs, o2) \<in> set (observables (regs w r)) \<Longrightarrow> subscription (obsRegs w o2) \<noteq> sb"
      by (auto simp: uns)
    from l m' live' obtain r' where r': "componentRegistrations w c' = Some r'"
      "(obs1, oreg) \<in> set (observables (regs w r'))" "subscription (obsRegs w oreg) = sb"
      unfolding liveBound_def by fastforce
    have "r' = r \<longrightarrow> obs1 \<noteq> obs" using r' nr by auto
    then show "\<exists>ra. componentRegistrations w' c' = Some ra \<and>
            (obs1, oreg) \<in> set (observables (regs w' ra)) \<and>
            subscription (obsRegs w' oreg) = sb"
      using r' by (auto simp: fr obs' set_map_delete)
  qed
  moreover have "boundLive w'"
    unfolding boundLive_def
  proof (intro allI impI, elim conjE)
    fix c' r' obs1 oreg
    assume a: "componentRegistrations w' c' = Some r'"
      and m: "(obs1, oreg) \<in> set (observables (regs w' r'))"
    from a have a': "componentRegistrations w c' = Some r'" by (simp add: fr)
    from m have m': "(obs1, oreg) \<in> set (observables (regs w r'))"
      and ne: "r' = r \<longrightarrow> obs1 \<noteq> obs"
      by (auto simp: obs' set_map_delete split: if_splits)
    from b a' m' have e: "(subscription (obsRegs w oreg), obs1, oreg, c') \<in> set (subscribers w)"
      and lv: "subscription (obsRegs w oreg) \<notin> set (unsubscribed w)"
      unfolding boundLive_def by blast+
    have "subscription (obsRegs w oreg) \<noteq> subscription (obsRegs w o2)"
      if "(obs, o2) \<in> set (observables (regs w r))" for o2
    proof
      assume eq: "subscription (obsRegs w oreg) = subscription (obsRegs w o2)"
      from bound_subscription_inj [OF s b a' m' Some that eq]
      have "obs1 = obs" "c' = c" by simp_all
      with a' Some ne show False by simp
    qed
    then show "(subscription (obsRegs w' oreg), obs1, oreg, c') \<in> set (subscribers w')
          \<and> subscription (obsRegs w' oreg) \<notin> set (unsubscribed w')"
      using e lv by (auto simp: fr uns)
  qed
  ultimately show ?thesis by (simp add: wf_def w'_def)
qed

lemma wf_getObservableValue:
  assumes "wf w"
  shows "wf (snd (getObservableValue obs w))"
proof -
  define c where "c = renderingRef w"
  define w0 where "w0 = init c w"
  have wf0: "wf w0" using assms by (simp add: w0_def wf_init)
  obtain r where reg: "componentRegistrations w0 c = Some r"
    using init_registers [of c w] by (auto simp: w0_def)
  have rr: "renderingRef w0 = c" by (simp add: w0_def c_def init_frame)
  have g: "getObservableValue obs w = getObservableValue obs w0"
    using getObservableValue_init [of obs w] by (simp add: w0_def c_def)
  have r: "refsOk w0" and s: "subsOk w0" and l: "liveBound w0" and b: "boundLive w0"
    using wf0 by (simp_all add: wf_def)
  show ?thesis
  proof (cases "map_of (observables (regs w0 r)) obs")
    case (Some oreg)
    have "wf (updReg r (\<lambda>cr. cr\<lparr>recentlyUsedObservables := recentlyUsedObservables cr @ [obs]\<rparr>) w0) = wf w0"
      by (rule wf_cong) (simp_all add: updReg_def)
    then show ?thesis
      using getObservableValue_again [of w0 r obs oreg] reg rr Some wf0 by (simp add: g)
  next
    case None
    then have fresh: "\<not> map_has obs (observables (regs w0 r))" by (simp add: map_has_def)
    then have fk: "obs \<notin> set (map fst (observables (regs w0 r)))" by (simp add: map_has_keys)
    define w' where "w' = snd (getObservableValue obs w0)"
    note e = getObservableValue_first [of w0 r obs, unfolded rr, OF reg fresh]
    have fr: "componentRegistrations w' = componentRegistrations w0" "nextRef w' = nextRef w0"
      "nextSub w' = Suc (nextSub w0)" "nextObsReg w' = Suc (nextObsReg w0)"
      "subscribers w' = subscribers w0 @ [(nextSub w0, obs, nextObsReg w0, c)]"
      "unsubscribed w' = unsubscribed w0"
      by (simp_all add: w'_def e)
    have obs': "observables (regs w' r') =
      (if r' = r then observables (regs w0 r) @ [(obs, nextObsReg w0)] else observables (regs w0 r'))" for r'
      by (simp add: w'_def e map_set_fresh [OF fk])
    have sub': "subscription (obsRegs w' a) = (if a = nextObsReg w0 then nextSub w0 else subscription (obsRegs w0 a))" for a
      by (simp add: w'_def e)
    have "refsOk w'"
      using r fk by (auto simp: refsOk_def fr obs')
    moreover have "subsOk w'"
      using s by (fastforce simp: subsOk_def fr less_Suc_eq)
    moreover have "liveBound w'"
      unfolding liveBound_def
    proof (clarify)
      fix sb obs1 oreg c'
      assume m: "(sb, obs1, oreg, c') \<in> set (subscribers w')"
        and live: "sb \<notin> set (unsubscribed w')"
      show "\<exists>ra. componentRegistrations w' c' = Some ra \<and>
            (obs1, oreg) \<in> set (observables (regs w' ra)) \<and>
            subscription (obsRegs w' oreg) = sb"
      proof (cases "(sb, obs1, oreg, c') \<in> set (subscribers w0)")
        case True
        with l live obtain r' where r': "componentRegistrations w0 c' = Some r'"
          "(obs1, oreg) \<in> set (observables (regs w0 r'))" "subscription (obsRegs w0 oreg) = sb"
          unfolding liveBound_def by (fastforce simp: fr)
        have "oreg < nextObsReg w0" using True s by (auto simp: subsOk_def)
        then show ?thesis using r' by (auto simp: fr obs' sub')
      next
        case False
        with m have "(sb, obs1, oreg, c') = (nextSub w0, obs, nextObsReg w0, c)" by (simp add: fr)
        then show ?thesis using reg by (simp add: fr obs' sub')
      qed
    qed
    moreover have "boundLive w'"
      unfolding boundLive_def
    proof (intro allI impI, elim conjE)
      fix c' r' obs1 oreg
      assume a: "componentRegistrations w' c' = Some r'"
        and m: "(obs1, oreg) \<in> set (observables (regs w' r'))"
      from a have a': "componentRegistrations w0 c' = Some r'" by (simp add: fr)
      show "(subscription (obsRegs w' oreg), obs1, oreg, c') \<in> set (subscribers w')
          \<and> subscription (obsRegs w' oreg) \<notin> set (unsubscribed w')"
      proof (cases "(obs1, oreg) \<in> set (observables (regs w0 r'))")
        case True
        with b a' have e1: "(subscription (obsRegs w0 oreg), obs1, oreg, c') \<in> set (subscribers w0)"
          and lv: "subscription (obsRegs w0 oreg) \<notin> set (unsubscribed w0)"
          unfolding boundLive_def by blast+
        have "oreg < nextObsReg w0" using e1 s by (auto simp: subsOk_def)
        then show ?thesis using e1 lv by (simp add: fr sub')
      next
        case False
        with m have eq: "r' = r" "obs1 = obs" "oreg = nextObsReg w0"
          by (auto simp: obs' split: if_splits)
        have "c' = c" using a' reg r eq by (auto simp: refsOk_def)
        moreover have "nextSub w0 \<notin> set (unsubscribed w0)" using s by (auto simp: subsOk_def)
        ultimately show ?thesis using eq by (simp add: fr sub')
      qed
    qed
    ultimately show ?thesis by (simp add: wf_def w'_def g)
  qed
qed

lemma wf_getPromiseValue:
  assumes "wf w"
  shows "wf (snd (getPromiseValue p w))"
proof -
  define c where "c = renderingRef w"
  define w0 where "w0 = init c w"
  have wf0: "wf w0" using assms by (simp add: w0_def wf_init)
  obtain r where reg: "componentRegistrations w0 c = Some r"
    using init_registers [of c w] by (auto simp: w0_def)
  have rr: "renderingRef w0 = c" by (simp add: w0_def c_def init_frame)
  have g: "getPromiseValue p w = getPromiseValue p w0"
    using getPromiseValue_init [of p w] by (simp add: w0_def c_def)
  show ?thesis
  proof (cases "map_has p (promises (regs w0 r))")
    case True
    then show ?thesis using getPromiseValue_again [of w0 r p] reg rr wf0 by (simp add: g)
  next
    case False
    have "wf ((updReg r (\<lambda>cr. cr\<lparr>promises := map_set p Null (promises cr)\<rparr>) w0)
              \<lparr>thens := thens w0 @ [(p, r, c)]\<rparr>) = wf w0"
      by (rule wf_cong) (simp_all add: updReg_def)
    then show ?thesis using getPromiseValue_first [of w0 r p] reg rr wf0 False by (simp add: g)
  qed
qed

lemma isPromise_cases: "isPromise obj = Inr True \<or> isPromise obj = Inr False"
  using isPromise_no_throw [of obj] by (cases "isPromise obj") auto

lemma isSubscribable_cases: "isSubscribable obj = Inr True \<or> isSubscribable obj = Inr False"
  using isSubscribable_no_throw [of obj] by (cases "isSubscribable obj") auto

lemma async_invalid:
  "isPromise obj = Inr False \<Longrightarrow> isSubscribable obj = Inr False \<Longrightarrow>
   async obj w = (Inr Undefined, w\<lparr>consoleErrors := consoleErrors w @ [obj]\<rparr>)"
  by (simp add: async_def getAsyncValue_def)

lemma async_cases [case_names promise stream invalid]:
  obtains "isPromise obj = Inr True"
      "async obj w = (Inr (fst (getPromiseValue obj w)), snd (getPromiseValue obj w))"
  | "isPromise obj = Inr False" "isSubscribable obj = Inr True"
      "async obj w = (Inr (fst (getObservableValue obj w)), snd (getObservableValue obj w))"
  | "isPromise obj = Inr False" "isSubscribable obj = Inr False"
      "async obj w = (Inr Undefined, w\<lparr>consoleErrors := consoleErrors w @ [obj]\<rparr>)"
  using isPromise_cases [of obj] isSubscribable_cases [of obj]
        async_promise [of obj w] async_stream [of obj w] async_invalid [of obj w]
  by blast

lemma wf_async:
  assumes "wf w"
  shows "wf (snd (async obj w))"
proof (cases obj w rule: async_cases)
  case promise
  then show ?thesis using wf_getPromiseValue [OF assms, of obj] by simp
next
  case stream
  then show ?thesis using wf_getObservableValue [OF assms, of obj] by simp
next
  case invalid
  have "wf (w\<lparr>consoleErrors := consoleErrors w @ [obj]\<rparr>) = wf w"
    by (rule wf_cong) simp_all
  then show ?thesis using invalid assms by simp
qed

lemma wf_run: "wf w \<Longrightarrow> wf (snd (run body w))"
proof (induction body arbitrary: w)
  case (Return v)
  then show ?case by simp
next
  case (Read obj k)
  obtain x w1 where a: "async obj w = (x, w1)" by (cases "async obj w")
  have w1: "wf w1" using wf_async [OF Read.prems, of obj] a by simp
  show ?case
  proof (cases x)
    case (Inl e)
    then show ?thesis using a w1 by simp
  next
    case (Inr v)
    then show ?thesis using a Read.IH [of "k v" w1] w1 by simp
  qed
qed


lemma wf_reap: "wf w \<Longrightarrow> wf (fold (unregisterObservable c) unused w)"
  by (induction unused arbitrary: w) (simp_all add: wf_unregisterObservable)

lemma wf_callHook: "wf w \<Longrightarrow> wf (snd (callHook h w))"
proof (induction h arbitrary: w)
  case Absent
  then show ?case by simp
next
  case (UserFn n body)
  have "wf (w\<lparr>userCalls := userCalls w @ [n]\<rparr>) = wf w"
    by (rule wf_cong) simp_all
  then show ?case using UserFn wf_run by simp
next
  case (WConnected c r orig)
  have "wf (init c w)" using WConnected.prems by (rule wf_init)
  then show ?case
    using WConnected.IH [of "init c w"] by (auto simp: Let_def split: prod.splits sum.splits)
next
  case (WDisconnected c r orig)
  have "wf (destroy c w)" using WDisconnected.prems by (rule wf_destroy)
  then show ?case
    using WDisconnected.IH [of "destroy c w"] by (auto simp: Let_def split: prod.splits sum.splits)
next
  case (WRender c r orig)
  define w1 where "w1 = updReg r (\<lambda>cr. cr\<lparr>recentlyUsedObservables := []\<rparr>) w"
  have "wf w1 = wf w" unfolding w1_def by (rule wf_cong) (simp_all add: updReg_def)
  then have w1: "wf w1" using WRender.prems by simp
  obtain x w2 where c: "callHook orig w1 = (x, w2)" by (cases "callHook orig w1")
  have w2: "wf w2" using WRender.IH [OF w1] c by simp
  show ?case
    using WRender.prems w2 c
    by (simp add: Let_def w1_def [symmetric] wf_reap wf_destroy split: sum.splits)
qed

lemma wf_hostRender: "wf w \<Longrightarrow> wf (snd (hostRender c w))"
proof -
  assume a: "wf w"
  have "wf (w\<lparr>renderingRef := c\<rparr>) = wf w" by (rule wf_cong) simp_all
  then have "wf (w\<lparr>renderingRef := c\<rparr>)" using a by simp
  then show ?thesis
    using wf_callHook [of "w\<lparr>renderingRef := c\<rparr>"] by (simp add: hostRender_def Let_def)
qed

lemma wf_hostConnect: "wf w \<Longrightarrow> wf (hostConnect c w)"
  by (simp add: hostConnect_def wf_callHook)

lemma wf_hostDisconnect: "wf w \<Longrightarrow> wf (hostDisconnect c w)"
  by (simp add: hostDisconnect_def wf_callHook)

lemma settle_frame:
  "nextRef (settle p v w) = nextRef w"
  "nextSub (settle p v w) = nextSub w"
  "nextObsReg (settle p v w) = nextObsReg w"
  "subscribers (settle p v w) = subscribers w"
  "unsubscribed (settle p v w) = unsubscribed w"
  "obsRegs (settle p v w) = obsRegs w"
proof -
  have "nextRef (fold (\<lambda>(p', r', c) s. if p' = p then onSettled p' r' c v s else s) xs s0) = nextRef s0
      \<and> nextSub (fold (\<lambda>(p', r', c) s. if p' = p then onSettled p' r' c v s else s) xs s0) = nextSub s0
      \<and> nextObsReg (fold (\<lambda>(p', r', c) s. if p' = p then onSettled p' r' c v s else s) xs s0) = nextObsReg s0
      \<and> subscribers (fold (\<lambda>(p', r', c) s. if p' = p then onSettled p' r' c v s else s) xs s0) = subscribers s0
      \<and> unsubscribed (fold (\<lambda>(p', r', c) s. if p' = p then onSettled p' r' c v s else s) xs s0) = unsubscribed s0
      \<and> obsRegs (fold (\<lambda>(p', r', c) s. if p' = p then onSettled p' r' c v s else s) xs s0) = obsRegs s0"
    for xs s0
    by (induction xs arbitrary: s0) (auto simp: onSettled_def forceUpdate_def updReg_def)
  then show "nextRef (settle p v w) = nextRef w"
  "nextSub (settle p v w) = nextSub w"
  "nextObsReg (settle p v w) = nextObsReg w"
  "subscribers (settle p v w) = subscribers w"
  "unsubscribed (settle p v w) = unsubscribed w"
  "obsRegs (settle p v w) = obsRegs w"
    by (simp_all add: settle_def)
qed

lemma wf_settle: "wf w \<Longrightarrow> wf (settle p v w)"
proof -
  assume a: "wf w"
  have "wf (settle p v w) = wf w"
    by (rule wf_cong) (simp_all add: settle_other settle_frame settle_regs)
  then show ?thesis using a by simp
qed

lemma fold_deliver:
  "fold (\<lambda>sbr s. if fst (snd sbr) = obs then deliver sbr v s else s) xs w =
     w\<lparr>obsRegs := (\<lambda>a. if a \<in> (\<lambda>sbr. fst (snd (snd sbr))) `
                              set (filter (\<lambda>sbr. fst (snd sbr) = obs \<and> fst sbr \<notin> set (unsubscribed w)) xs)
                        then (obsRegs w a)\<lparr>result := v\<rparr> else obsRegs w a),
       forceUpdates := forceUpdates w @ map (\<lambda>sbr. snd (snd (snd sbr)))
                         (filter (\<lambda>sbr. fst (snd sbr) = obs \<and> fst sbr \<notin> set (unsubscribed w)) xs)\<rparr>"
proof (induction xs arbitrary: w)
  case Nil
  show ?case by simp
next
  case (Cons x xs)
  obtain sb obs' oreg c where x: "x = (sb, obs', oreg, c)" by (cases x) auto
  show ?case
  proof (cases "obs' = obs \<and> sb \<notin> set (unsubscribed w)")
    case False
    then show ?thesis using Cons.IH [of w] by (auto simp: x deliver_def)
  next
    case True
    have "fold (\<lambda>sbr s. if fst (snd sbr) = obs then deliver sbr v s else s) (x # xs) w
        = fold (\<lambda>sbr s. if fst (snd sbr) = obs then deliver sbr v s else s) xs (onEmit oreg c v w)"
      using True by (simp add: x deliver_def)
    also note Cons.IH [of "onEmit oreg c v w"]
    finally show ?thesis
      using True by (auto simp: x onEmit_def forceUpdate_def fun_eq_iff)
  qed
qed

lemma emit_eq:
  "emit obs v w =
     w\<lparr>obsRegs := (\<lambda>a. if a \<in> (\<lambda>sbr. fst (snd (snd sbr))) ` set (reached obs w)
                        then (obsRegs w a)\<lparr>result := v\<rparr> else obsRegs w a),
       forceUpdates := forceUpdates w @ map (\<lambda>sbr. snd (snd (snd sbr))) (reached obs w)\<rparr>"
  by (simp add: emit_def reached_def fold_deliver)

lemma wf_emit: "wf w \<Longrightarrow> wf (emit obs v w)"
proof -
  assume a: "wf w"
  have "wf (emit obs v w) = wf w"
    by (rule wf_cong) (simp_all add: emit_eq)
  then show ?thesis using a by simp
qed

section \<open>Reads of a registered component\<close>

text \<open>What one \<open>async\<close> does for a component that is registered.\<close>

lemma getPromiseValue_installed:
  assumes "componentRegistrations w (renderingRef w) = Some r"
  shows "componentRegistrations (snd (getPromiseValue p w)) = componentRegistrations w"
    and "renderingRef (snd (getPromiseValue p w)) = renderingRef w"
    and "components (snd (getPromiseValue p w)) = components w"
    and "unsubscribed (snd (getPromiseValue p w)) = unsubscribed w"
    and "subscribers (snd (getPromiseValue p w)) = subscribers w"
    and "obsRegs (snd (getPromiseValue p w)) = obsRegs w"
    and "nextObsReg (snd (getPromiseValue p w)) = nextObsReg w"
    and "forceUpdates (snd (getPromiseValue p w)) = forceUpdates w"
    and "recentlyUsedObservables (regs (snd (getPromiseValue p w)) r') = recentlyUsedObservables (regs w r')"
    and "observables (regs (snd (getPromiseValue p w)) r') = observables (regs w r')"
    and "origMethods (regs (snd (getPromiseValue p w)) r') = origMethods (regs w r')"
    and "promises (regs (snd (getPromiseValue p w)) r) \<noteq> []"
proof -
  show "componentRegistrations (snd (getPromiseValue p w)) = componentRegistrations w"
    and "renderingRef (snd (getPromiseValue p w)) = renderingRef w"
    and "components (snd (getPromiseValue p w)) = components w"
    and "unsubscribed (snd (getPromiseValue p w)) = unsubscribed w"
    and "subscribers (snd (getPromiseValue p w)) = subscribers w"
    and "obsRegs (snd (getPromiseValue p w)) = obsRegs w"
    and "nextObsReg (snd (getPromiseValue p w)) = nextObsReg w"
    and "forceUpdates (snd (getPromiseValue p w)) = forceUpdates w"
    and "recentlyUsedObservables (regs (snd (getPromiseValue p w)) r') = recentlyUsedObservables (regs w r')"
    and "observables (regs (snd (getPromiseValue p w)) r') = observables (regs w r')"
    and "origMethods (regs (snd (getPromiseValue p w)) r') = origMethods (regs w r')"
    using assms
    by (cases "map_has p (promises (regs w r))";
        simp add: getPromiseValue_first getPromiseValue_again updReg_def)+
  show "promises (regs (snd (getPromiseValue p w)) r) \<noteq> []"
  proof (cases "map_has p (promises (regs w r))")
    case True
    then have "promises (regs w r) \<noteq> []" by (auto simp: map_has_def)
    then show ?thesis using assms True by (simp add: getPromiseValue_again)
  next
    case False
    have "map_set p Null m \<noteq> []" for m :: "(jsval \<times> jsval) list" by (cases m) auto
    then show ?thesis using assms False by (simp add: getPromiseValue_first updReg_def)
  qed
qed

lemma passFrame_refl: "passFrame r [] w w"
  by (simp add: passFrame_def)

lemma passFrame_trans:
  "passFrame r xs w w' \<Longrightarrow> passFrame r ys w' w'' \<Longrightarrow> passFrame r (xs @ ys) w w''"
  unfolding passFrame_def by (intro conjI; (simp; fail)?) auto

lemma passFrame_getPromiseValue:
  assumes "componentRegistrations w (renderingRef w) = Some r"
  shows "passFrame r [] w (snd (getPromiseValue p w))"
  using getPromiseValue_installed [OF assms, of p]
  by (simp add: passFrame_def)

lemma passFrame_getObservableValue:
  assumes "componentRegistrations w (renderingRef w) = Some r"
  shows "passFrame r [obs] w (snd (getObservableValue obs w))"
proof (cases "map_of (observables (regs w r)) obs")
  case (Some oreg)
  then have "obs \<in> set (map fst (observables (regs w r)))"
    by (metis map_has_def map_has_keys option.distinct(1))
  then show ?thesis
    using getObservableValue_again [OF assms Some]
    by (auto simp: passFrame_def updReg_def)
next
  case None
  then have fresh: "\<not> map_has obs (observables (regs w r))" by (simp add: map_has_def)
  then have fk: "obs \<notin> set (map fst (observables (regs w r)))" by (simp add: map_has_keys)
  show ?thesis
    using getObservableValue_first [OF assms fresh]
    by (auto simp: passFrame_def map_set_fresh [OF fk])
qed

lemma passFrame_async:
  assumes "componentRegistrations w (renderingRef w) = Some r"
  shows "passFrame r (if isStream obj then [obj] else []) w (snd (async obj w))"
proof (cases obj w rule: async_cases)
  case promise
  then show ?thesis using passFrame_getPromiseValue [OF assms, of obj] by (simp add: isStream_def)
next
  case stream
  then show ?thesis using passFrame_getObservableValue [OF assms, of obj] by (simp add: isStream_def)
next
  case invalid
  then show ?thesis by (simp add: isStream_def passFrame_def)
qed

lemma async_no_throw: "\<exists>x. fst (async obj w) = Inr x"
  by (cases obj w rule: async_cases) simp_all

lemma run_no_throw: "\<exists>x. fst (run body w) = Inr x"
proof (induction body arbitrary: w)
  case (Return v)
  show ?case by simp
next
  case (Read obj k)
  obtain x w1 where a: "async obj w = (Inr x, w1)"
    using async_no_throw [of obj w] by (cases "async obj w") auto
  show ?case using a Read.IH [of "k x" w1] by simp
qed

lemma passFrame_run:
  assumes "componentRegistrations w (renderingRef w) = Some r"
  shows "passFrame r (filter isStream (reads body w)) w (snd (run body w))"
  using assms
proof (induction body arbitrary: w)
  case (Return v)
  show ?case by (simp add: passFrame_refl)
next
  case (Read obj k)
  obtain x w1 where a: "async obj w = (Inr x, w1)"
    using async_no_throw [of obj w] by (cases "async obj w") auto
  have f1: "passFrame r (if isStream obj then [obj] else []) w w1"
    using passFrame_async [OF Read.prems, of obj] a by simp
  then have "componentRegistrations w1 (renderingRef w1) = Some r"
    using Read.prems by (simp add: passFrame_def)
  then have f2: "passFrame r (filter isStream (reads (k x) w1)) w1 (snd (run (k x) w1))"
    using Read.IH [of "k x" w1] by simp
  show ?case
    using passFrame_trans [OF f1 f2] a by (cases "isStream obj") simp_all
qed

section \<open>The reaper\<close>

lemma unregisterObservable_unsubscribed:
  assumes "componentRegistrations w c = Some r" and "distinct (map fst (observables (regs w r)))"
  shows "set (unsubscribed (unregisterObservable c obs w)) = set (unsubscribed w) \<union>
       {subscription (obsRegs w oreg) | oreg. (obs, oreg) \<in> set (observables (regs w r))}"
proof (cases "map_of (observables (regs w r)) obs")
  case None
  then have "\<And>oreg. (obs, oreg) \<notin> set (observables (regs w r))"
    by (metis weak_map_of_SomeI option.distinct(1))
  then show ?thesis using None by (simp add: unregisterObservable_Some [OF assms(1)])
next
  case (Some o1)
  then have "\<And>oreg. ((obs, oreg) \<in> set (observables (regs w r))) = (oreg = o1)"
    using assms(2) by (metis map_of_eq_Some_iff option.inject)
  then show ?thesis using Some by (simp add: unregisterObservable_Some [OF assms(1)])
qed

lemma reapFrame_fold:
  assumes "componentRegistrations w c = Some r" and "distinct (map fst (observables (regs w r)))"
  shows "reapFrame r unused w (fold (unregisterObservable c) unused w)"
  using assms
proof (induction unused arbitrary: w)
  case Nil
  show ?case by (simp add: reapFrame_def)
next
  case (Cons x xs)
  define w1 where "w1 = unregisterObservable c x w"
  note u = unregisterObservable_Some [OF Cons.prems(1), of x, folded w1_def]
  have reg1: "componentRegistrations w1 c = Some r" using Cons.prems(1) by (simp add: u)
  have obs1: "observables (regs w1 r) = map_delete x (observables (regs w r))" by (simp add: u)
  have dk1: "distinct (map fst (observables (regs w1 r)))"
    using Cons.prems(2) by (simp add: obs1 distinct_map_delete)
  have uns1: "set (unsubscribed w1) = set (unsubscribed w) \<union>
       {subscription (obsRegs w oreg) | oreg. (x, oreg) \<in> set (observables (regs w r))}"
    using unregisterObservable_unsubscribed [OF Cons.prems] by (simp add: w1_def)
  have fr1: "componentRegistrations w1 = componentRegistrations w" "components w1 = components w"
    "obsRegs w1 = obsRegs w" "forceUpdates w1 = forceUpdates w" "subscribers w1 = subscribers w"
    "promises (regs w1 r) = promises (regs w r)"
    "recentlyUsedObservables (regs w1 r) = recentlyUsedObservables (regs w r)"
    "origMethods (regs w1 r) = origMethods (regs w r)"
    by (simp_all add: u)
  have ih: "reapFrame r xs w1 (fold (unregisterObservable c) xs w1)"
    using Cons.IH [OF reg1 dk1] .
  have f: "filter (\<lambda>p. fst p \<notin> set xs) (map_delete x m) = filter (\<lambda>p. fst p \<notin> set (x # xs)) m"
    for m :: "(jsval \<times> oref) list"
    by (induction m) (auto simp: map_delete_def)
  have "set (unsubscribed (fold (unregisterObservable c) xs w1)) = set (unsubscribed w) \<union>
           {subscription (obsRegs w oreg) | obs oreg.
              obs \<in> set (x # xs) \<and> (obs, oreg) \<in> set (observables (regs w r))}"
    using ih unfolding reapFrame_def uns1 obs1 fr1 set_map_delete
    by auto
  then show ?case
    using ih unfolding reapFrame_def
    by (simp add: w1_def [symmetric] fr1 obs1 f)
qed

section \<open>The wrapper of the render function\<close>

lemma destroy_regs: "regs (destroy c w) = regs w"
  by (cases "componentRegistrations w c") (simp_all add: destroy_Some destroy_None)

lemma destroy_unsubscribed_mono: "set (unsubscribed w) \<subseteq> set (unsubscribed (destroy c w))"
  by (cases "componentRegistrations w c") (auto simp: destroy_Some destroy_None)

lemma wrapped_pass:
  fixes n :: nat and body :: rprog
  assumes "wf w" and "componentRegistrations w c = Some r" and "renderingRef w = c"
  defines "w2 \<equiv> snd (run body (passStart r n w))"
    and "w' \<equiv> snd (callHook (WRender c r (UserFn n body)) w)"
    and "xs \<equiv> filter isStream (reads body (passStart r n w))"
  shows "fst (callHook (WRender c r (UserFn n body)) w) = fst (run body (passStart r n w))"
    and "passFrame r xs (passStart r n w) w2"
    and "wf w2" and "wf w'"
    and "recentlyUsedObservables (regs w' r) = xs"
    and "observables (regs w' r) = filter (\<lambda>p. fst p \<in> set xs) (observables (regs w2 r))"
    and "\<forall>(obs, oreg) \<in> set (observables (regs w2 r)). obs \<notin> set xs \<longrightarrow>
            subscription (obsRegs w2 oreg) \<in> set (unsubscribed w')"
    and "promises (regs w' r) = promises (regs w2 r)"
    and "obsRegs w' = obsRegs w2" and "subscribers w' = subscribers w2"
    and "forceUpdates w' = forceUpdates w2"
    and "(observables (regs w' r) = [] \<and> promises (regs w' r) = []) \<longrightarrow>
           componentRegistrations w' = (componentRegistrations w)(c := None)
           \<and> components w' = (components w)(c := origMethods (regs w r))"
    and "\<not> (observables (regs w' r) = [] \<and> promises (regs w' r) = []) \<longrightarrow>
           componentRegistrations w' = componentRegistrations w \<and> components w' = components w"
proof -
  define w1 where "w1 = passStart r n w"
  have wf1: "wf w1"
  proof -
    have "wf w1 = wf w" unfolding w1_def passStart_def by (rule wf_cong) (simp_all add: updReg_def)
    then show ?thesis using assms(1) by simp
  qed
  have fr1: "componentRegistrations w1 = componentRegistrations w" "renderingRef w1 = c"
    "components w1 = components w" "recentlyUsedObservables (regs w1 r) = []"
    "origMethods (regs w1 r) = origMethods (regs w r)"
    by (simp_all add: w1_def passStart_def updReg_def assms(3))
  have reg1: "componentRegistrations w1 (renderingRef w1) = Some r"
    by (simp add: fr1 assms(2))
  obtain res where res: "fst (run body w1) = Inr res"
    using run_no_throw [of body w1] by auto
  have run: "run body w1 = (Inr res, w2)"
    using res by (simp add: w2_def w1_def prod_eq_iff)
  have pf: "passFrame r xs w1 w2"
    using passFrame_run [OF reg1, of body] by (simp add: xs_def w2_def w1_def)
  then show "passFrame r xs (passStart r n w) w2" by (simp add: w1_def)
  have wf2: "wf w2" using wf_run [OF wf1, of body] by (simp add: w2_def w1_def)
  then show "wf w2" .
  have fr2: "componentRegistrations w2 = componentRegistrations w" "components w2 = components w"
    "recentlyUsedObservables (regs w2 r) = xs" "origMethods (regs w2 r) = origMethods (regs w r)"
    "set (map fst (observables (regs w2 r))) = set (map fst (observables (regs w1 r))) \<union> set xs"
    using pf by (simp_all add: passFrame_def fr1)
  have reg2: "componentRegistrations w2 c = Some r" by (simp add: fr2 assms(2))
  have dk2: "distinct (map fst (observables (regs w2 r)))"
    using wf2 reg2 by (auto simp: wf_def refsOk_def)
  define unused where "unused = filter (\<lambda>obs. obs \<notin> set xs) (map fst (observables (regs w2 r)))"
  define w3 where "w3 = fold (unregisterObservable c) unused w2"
  have rf: "reapFrame r unused w2 w3"
    unfolding w3_def by (rule reapFrame_fold [OF reg2 dk2])
  have wf3: "wf w3" unfolding w3_def by (rule wf_reap [OF wf2])
  define w4 where "w4 = (if recentlyUsedObservables (regs w3 r) = [] \<and> promises (regs w3 r) = []
                         then destroy c w3 else w3)"
  have call: "callHook (WRender c r (UserFn n body)) w = (Inr res, w4)"
  proof -
    have s: "(updReg r (\<lambda>cr. cr\<lparr>recentlyUsedObservables := []\<rparr>) w)
               \<lparr>userCalls := userCalls (updReg r (\<lambda>cr. cr\<lparr>recentlyUsedObservables := []\<rparr>) w) @ [n]\<rparr> = w1"
      by (simp add: w1_def passStart_def updReg_def)
    show ?thesis
      by (simp add: Let_def s run w4_def w3_def unused_def fr2)
  qed
  show "fst (callHook (WRender c r (UserFn n body)) w) = fst (run body (passStart r n w))"
    using call res by (simp add: w1_def)
  have w': "w' = w4" using call by (simp add: w'_def)
  show "wf w'" unfolding w' w4_def using wf3 by (simp add: wf_destroy)
  have regs4: "regs w4 = regs w3" by (simp add: w4_def destroy_regs)
  have fr3: "componentRegistrations w3 = componentRegistrations w" "components w3 = components w"
    "recentlyUsedObservables (regs w3 r) = xs" "origMethods (regs w3 r) = origMethods (regs w r)"
    "promises (regs w3 r) = promises (regs w2 r)" "obsRegs w3 = obsRegs w2"
    "subscribers w3 = subscribers w2" "forceUpdates w3 = forceUpdates w2"
    using rf by (simp_all add: reapFrame_def fr2)
  have obs3: "observables (regs w3 r) = filter (\<lambda>p. fst p \<in> set xs) (observables (regs w2 r))"
  proof -
    have "observables (regs w3 r) = filter (\<lambda>p. fst p \<notin> set unused) (observables (regs w2 r))"
      using rf by (simp add: reapFrame_def)
    also have "\<dots> = filter (\<lambda>p. fst p \<in> set xs) (observables (regs w2 r))"
      by (rule filter_cong) (auto simp: unused_def)
    finally show ?thesis .
  qed
  show "recentlyUsedObservables (regs w' r) = xs" by (simp add: w' regs4 fr3)
  show "observables (regs w' r) = filter (\<lambda>p. fst p \<in> set xs) (observables (regs w2 r))"
    by (simp add: w' regs4 obs3)
  show "promises (regs w' r) = promises (regs w2 r)" by (simp add: w' regs4 fr3)
  have uns3: "set (unsubscribed w3) = set (unsubscribed w2) \<union>
           {subscription (obsRegs w2 oreg) | obs oreg.
              obs \<in> set unused \<and> (obs, oreg) \<in> set (observables (regs w2 r))}"
    using rf by (simp add: reapFrame_def)
  have uns4: "set (unsubscribed w3) \<subseteq> set (unsubscribed w4)"
    using destroy_unsubscribed_mono [of w3 c] by (simp add: w4_def)
  show "\<forall>(obs, oreg) \<in> set (observables (regs w2 r)). obs \<notin> set xs \<longrightarrow>
            subscription (obsRegs w2 oreg) \<in> set (unsubscribed w')"
  proof (clarify)
    fix obs oreg assume m: "(obs, oreg) \<in> set (observables (regs w2 r))" and n: "obs \<notin> set xs"
    have "obs \<in> set unused" using m n by (force simp: unused_def)
    then have "subscription (obsRegs w2 oreg) \<in> set (unsubscribed w3)" using m uns3 by auto
    then show "subscription (obsRegs w2 oreg) \<in> set (unsubscribed w')" using uns4 w' by auto
  qed
  have frd: "obsRegs (destroy c w3) = obsRegs w3" "subscribers (destroy c w3) = subscribers w3"
    "forceUpdates (destroy c w3) = forceUpdates w3"
    by (cases "componentRegistrations w3 c"; simp add: destroy_Some destroy_None)+
  show "obsRegs w' = obsRegs w2" "subscribers w' = subscribers w2" "forceUpdates w' = forceUpdates w2"
    by (simp_all add: w' w4_def frd fr3)
  have iff: "(xs = []) = (observables (regs w3 r) = [])"
  proof
    assume "xs = []" then show "observables (regs w3 r) = []" by (simp add: obs3)
  next
    assume e: "observables (regs w3 r) = []"
    show "xs = []"
    proof (rule ccontr)
      assume "xs \<noteq> []"
      then obtain x where x: "x \<in> set xs" by (cases xs) auto
      then have "x \<in> set (map fst (observables (regs w2 r)))" using fr2(5) by simp
      then obtain oreg where "(x, oreg) \<in> set (observables (regs w2 r))" by auto
      then have "(x, oreg) \<in> set (observables (regs w3 r))" using x by (simp add: obs3)
      then show False using e by simp
    qed
  qed
  have reg3: "componentRegistrations w3 c = Some r" by (simp add: fr3 assms(2))
  show "(observables (regs w' r) = [] \<and> promises (regs w' r) = []) \<longrightarrow>
           componentRegistrations w' = (componentRegistrations w)(c := None)
           \<and> components w' = (components w)(c := origMethods (regs w r))"
    using iff by (auto simp: w' regs4 w4_def fr3 destroy_Some [OF reg3])
  show "\<not> (observables (regs w' r) = [] \<and> promises (regs w' r) = []) \<longrightarrow>
           componentRegistrations w' = componentRegistrations w \<and> components w' = components w"
    using iff by (auto simp: w' regs4 w4_def fr3 destroy_regs)
qed

text \<open>
  Claim C4, as stated, fails for a component without a render function of its own: the
  wrapper returns at once, so the list of recently used observables is not cleared and the
  reaper does not run.
\<close>

theorem wrapped_render_without_original_counterexample:
  "render (components worldNoRender 0) = WRender 0 0 Absent
   \<and> recentlyUsedObservables (regs worldNoRender 0) = [sA]
   \<and> fst (hostRender 0 worldNoRender) = Inr Undefined
   \<and> recentlyUsedObservables (regs (snd (hostRender 0 worldNoRender)) 0) = [sA]
   \<and> observables (regs (snd (hostRender 0 worldNoRender)) 0) = [(sA, 0)]
   \<and> unsubscribed (snd (hostRender 0 worldNoRender)) = []"
  by (simp add: worldNoRender_def scenario_defs model_defs)

text \<open>
  Claim C4, amended. For a registered component whose saved render function is a function
  of the author: the wrapper runs that function in a world where
  \<open>recentlyUsedObservables\<close> is empty and returns its result; afterwards
  \<open>recentlyUsedObservables\<close> holds exactly the observables read in this pass, the
  \<open>observables\<close> map keeps exactly the entries read in this pass and the subscriptions of
  the others are unsubscribed; if then no observable and no promise is registered, the
  registration is destroyed and the saved hooks are back on the component, otherwise the
  registration and the hooks stay. When the saved render function is \<open>undefined\<close>, the
  wrapper returns \<open>undefined\<close> and does nothing.
\<close>

theorem wrapped_render_with_original:
  assumes "wf w" and "componentRegistrations w c = Some r" and "renderingRef w = c"
  shows "recentlyUsedObservables (regs (passStart r n w) r) = []
       \<and> fst (callHook (WRender c r (UserFn n body)) w) = fst (run body (passStart r n w))
       \<and> (\<exists>res. fst (callHook (WRender c r (UserFn n body)) w) = Inr res)
       \<and> recentlyUsedObservables (regs (snd (callHook (WRender c r (UserFn n body)) w)) r)
           = filter isStream (reads body (passStart r n w))
       \<and> observables (regs (snd (callHook (WRender c r (UserFn n body)) w)) r)
           = filter (\<lambda>p. fst p \<in> set (filter isStream (reads body (passStart r n w))))
                    (observables (regs (snd (run body (passStart r n w))) r))
       \<and> (\<forall>(obs, oreg) \<in> set (observables (regs (snd (run body (passStart r n w))) r)).
             obs \<notin> set (filter isStream (reads body (passStart r n w))) \<longrightarrow>
             subscription (obsRegs (snd (run body (passStart r n w))) oreg)
               \<in> set (unsubscribed (snd (callHook (WRender c r (UserFn n body)) w))))
       \<and> promises (regs (snd (callHook (WRender c r (UserFn n body)) w)) r)
           = promises (regs (snd (run body (passStart r n w))) r)
       \<and> (if observables (regs (snd (callHook (WRender c r (UserFn n body)) w)) r) = []
              \<and> promises (regs (snd (callHook (WRender c r (UserFn n body)) w)) r) = []
           then componentRegistrations (snd (callHook (WRender c r (UserFn n body)) w)) c = None
              \<and> components (snd (callHook (WRender c r (UserFn n body)) w)) c = origMethods (regs w r)
           else componentRegistrations (snd (callHook (WRender c r (UserFn n body)) w)) c = Some r
              \<and> components (snd (callHook (WRender c r (UserFn n body)) w)) c = components w c)
       \<and> callHook (WRender c r Absent) w = (Inr Undefined, w)"
proof -
  note p = wrapped_pass [OF assms, where n = n and body = body]
  have a: "recentlyUsedObservables (regs (passStart r n w) r) = []"
    by (simp add: passStart_def updReg_def)
  have b: "\<exists>res. fst (callHook (WRender c r (UserFn n body)) w) = Inr res"
    using p(1) run_no_throw [of body "passStart r n w"] by simp
  have c: "callHook (WRender c r Absent) w = (Inr Undefined, w)"
    by simp
  have d: "if observables (regs (snd (callHook (WRender c r (UserFn n body)) w)) r) = []
              \<and> promises (regs (snd (callHook (WRender c r (UserFn n body)) w)) r) = []
           then componentRegistrations (snd (callHook (WRender c r (UserFn n body)) w)) c = None
              \<and> components (snd (callHook (WRender c r (UserFn n body)) w)) c = origMethods (regs w r)
           else componentRegistrations (snd (callHook (WRender c r (UserFn n body)) w)) c = Some r
              \<and> components (snd (callHook (WRender c r (UserFn n body)) w)) c = components w c"
    using p(12) p(13) assms(2) by (simp split: if_splits)
  show ?thesis
    using a b c d p(1) p(5) p(6) p(7) p(8) by blast
qed

lemma wf_world0: "wf (world0 body)"
proof -
  have "wf (world0 body) = wf emptyWorld"
    unfolding world0_def by (rule wf_cong) simp_all
  then show ?thesis by (simp add: wf_emptyWorld)
qed

lemma wf_worldS: "wf worldS"
  unfolding worldS_def by (rule wf_hostRender [OF wf_world0])

lemma wf_worldP: "wf worldP"
  unfolding worldP_def by (rule wf_hostRender [OF wf_world0])

lemma worldS_renderingRef: "renderingRef worldS = 0"
  by (simp add: scenario_defs model_defs)

theorem wrapped_render_with_original_witness:
  "wf worldS \<and> componentRegistrations worldS 0 = Some 0 \<and> renderingRef worldS = 0
   \<and> fst (callHook (WRender 0 0 (UserFn 7 (readOne sA))) worldS)
        = fst (run (readOne sA) (passStart 0 7 worldS))
   \<and> recentlyUsedObservables (regs (snd (callHook (WRender 0 0 (UserFn 7 (readOne sA))) worldS)) 0)
        = filter isStream (reads (readOne sA) (passStart 0 7 worldS))
   \<and> callHook (WRender 0 0 Absent) worldS = (Inr Undefined, worldS)"
  using wrapped_render_with_original [OF wf_worldS worldS_registered worldS_renderingRef,
          of 7 "readOne sA"]
        wf_worldS worldS_registered worldS_renderingRef
  by blast

section \<open>Emissions\<close>

lemma reached_iff:
  "(sbr \<in> set (reached obs w)) =
     (sbr \<in> set (subscribers w) \<and> fst (snd sbr) = obs \<and> fst sbr \<notin> set (unsubscribed w))"
  by (auto simp: reached_def)

lemma emit_frame:
  "componentRegistrations (emit obs v w) = componentRegistrations w"
  "regs (emit obs v w) = regs w"
  "components (emit obs v w) = components w"
  "renderingRef (emit obs v w) = renderingRef w"
  "subscribers (emit obs v w) = subscribers w"
  "unsubscribed (emit obs v w) = unsubscribed w"
  "syncEmits (emit obs v w) = syncEmits w"
  "thens (emit obs v w) = thens w"
  "nextSub (emit obs v w) = nextSub w"
  "nextObsReg (emit obs v w) = nextObsReg w"
  "forceUpdates (emit obs v w) = forceUpdates w @ map (\<lambda>sbr. snd (snd (snd sbr))) (reached obs w)"
  "subscription (obsRegs (emit obs v w) a) = subscription (obsRegs w a)"
  by (simp_all add: emit_eq)

lemma emit_obsRegs:
  "obsRegs (emit obs v w) a =
     (if a \<in> (\<lambda>sbr. fst (snd (snd sbr))) ` set (reached obs w)
      then (obsRegs w a)\<lparr>result := v\<rparr> else obsRegs w a)"
  by (simp add: emit_eq)

text \<open>An emission of an observable that a component has not registered does not reach it.\<close>

lemma reached_not_registered:
  assumes "wf w"
    and "\<forall>r. componentRegistrations w c = Some r \<longrightarrow> s \<notin> fst ` set (observables (regs w r))"
  shows "c \<notin> (\<lambda>sbr. snd (snd (snd sbr))) ` set (reached s w)"
proof
  assume "c \<in> (\<lambda>sbr. snd (snd (snd sbr))) ` set (reached s w)"
  then obtain sb oreg where m: "(sb, s, oreg, c) \<in> set (subscribers w)" and l: "sb \<notin> set (unsubscribed w)"
    by (auto simp: reached_iff)
  have "liveBound w" using assms(1) by (simp add: wf_def)
  then obtain r where "componentRegistrations w c = Some r" "(s, oreg) \<in> set (observables (regs w r))"
    using m l unfolding liveBound_def by fastforce
  then show False using assms(2) by force
qed

lemma reached_other_observable:
  assumes "wf w" and "componentRegistrations w c = Some r"
    and "(obs, oreg) \<in> set (observables (regs w r))" and "obs \<noteq> s"
  shows "oreg \<notin> (\<lambda>sbr. fst (snd (snd sbr))) ` set (reached s w)"
proof
  assume "oreg \<in> (\<lambda>sbr. fst (snd (snd sbr))) ` set (reached s w)"
  then obtain sb c' where m: "(sb, s, oreg, c') \<in> set (subscribers w)" and l: "sb \<notin> set (unsubscribed w)"
    by (auto simp: reached_iff)
  have lb: "liveBound w" and bl: "boundLive w" and so: "subsOk w" using assms(1) by (simp_all add: wf_def)
  from lb m l have sb: "subscription (obsRegs w oreg) = sb"
    unfolding liveBound_def by fastforce
  from bl assms(2,3) have "(subscription (obsRegs w oreg), obs, oreg, c) \<in> set (subscribers w)"
    unfolding boundLive_def by blast
  with m sb subscriber_unique [OF so, of sb "(s, oreg, c')" "(obs, oreg, c)"]
  have "(s, oreg, c') = (obs, oreg, c)" by simp
  with assms(4) show False by simp
qed

lemma filter_singleton:
  "distinct xs \<Longrightarrow> a \<in> set xs \<Longrightarrow> P a \<Longrightarrow> (\<forall>y \<in> set xs. P y \<longrightarrow> y = a) \<Longrightarrow> filter P xs = [a]"
proof (induction xs)
  case Nil
  then show ?case by simp
next
  case (Cons x xs)
  show ?case
  proof (cases "x = a")
    case True
    have nx: "a \<notin> set xs" using Cons.prems(1) True by simp
    have "\<forall>y \<in> set xs. \<not> P y"
    proof
      fix y assume y: "y \<in> set xs"
      show "\<not> P y"
      proof
        assume "P y"
        then have "y = a" using Cons.prems(4) y by simp
        then show False using nx y by simp
      qed
    qed
    then have "filter P xs = []" by (simp add: filter_empty_conv)
    then show ?thesis using True Cons.prems(3) by simp
  next
    case False
    have np: "\<not> P x" using Cons.prems(4) False by simp
    have "a \<in> set xs" using Cons.prems(2) False by simp
    moreover have "distinct xs" using Cons.prems(1) by simp
    moreover have "\<forall>y \<in> set xs. P y \<longrightarrow> y = a" using Cons.prems(4) by simp
    ultimately have "filter P xs = [a]" using Cons.IH Cons.prems(3) by blast
    then show ?thesis using np by simp
  qed
qed

text \<open>An emission of a registered observable reaches its component through one subscriber.\<close>

lemma reached_registered:
  assumes "wf w" and "componentRegistrations w c = Some r"
    and "(s, oreg) \<in> set (observables (regs w r))"
  shows "filter (\<lambda>sbr. snd (snd (snd sbr)) = c) (reached s w) = [(subscription (obsRegs w oreg), s, oreg, c)]"
proof (rule filter_singleton)
  have lb: "liveBound w" and bl: "boundLive w" and so: "subsOk w" and ro: "refsOk w"
    using assms(1) by (simp_all add: wf_def)
  have "distinct (subscribers w)" using so by (auto simp: subsOk_def distinct_map)
  then show "distinct (reached s w)" by (simp add: reached_def)
  from bl assms(2,3) have e: "(subscription (obsRegs w oreg), s, oreg, c) \<in> set (subscribers w)"
    "subscription (obsRegs w oreg) \<notin> set (unsubscribed w)"
    unfolding boundLive_def by blast+
  then show "(subscription (obsRegs w oreg), s, oreg, c) \<in> set (reached s w)"
    by (simp add: reached_iff)
  show "snd (snd (snd (subscription (obsRegs w oreg), s, oreg, c))) = c" by simp
  have dk: "distinct (map fst (observables (regs w r)))" using ro assms(2) by (auto simp: refsOk_def)
  show "\<forall>x \<in> set (reached s w). snd (snd (snd x)) = c \<longrightarrow> x = (subscription (obsRegs w oreg), s, oreg, c)"
  proof (intro ballI impI)
    fix x assume x: "x \<in> set (reached s w)" and xc: "snd (snd (snd x)) = c"
    have "fst (snd x) = s" using x by (simp add: reached_iff)
    then obtain sb o' where xe: "x = (sb, s, o', c)" using xc by (cases x) auto
    have "(sb, s, o', c) \<in> set (subscribers w)" "sb \<notin> set (unsubscribed w)"
      using x xe by (auto simp: reached_iff)
    with lb obtain r' where "componentRegistrations w c = Some r'"
      "(s, o') \<in> set (observables (regs w r'))" "subscription (obsRegs w o') = sb"
      unfolding liveBound_def by fastforce
    then have "(s, o') \<in> set (observables (regs w r))" and sb: "subscription (obsRegs w o') = sb"
      using assms(2) by simp_all
    then have "o' = oreg" using eq_key_imp_eq_value [OF dk, of s o' oreg] assms(3) by simp
    then show "x = (subscription (obsRegs w oreg), s, oreg, c)" using xe sb by simp
  qed
qed

lemma emit_registered:
  assumes "wf w" and "componentRegistrations w c = Some r"
    and "(s, oreg) \<in> set (observables (regs w r))"
  shows "result (obsRegs (emit s v w) oreg) = v"
    and "length (filter ((=) c) (forceUpdates (emit s v w))) = Suc (length (filter ((=) c) (forceUpdates w)))"
proof -
  note f = reached_registered [OF assms]
  have "(subscription (obsRegs w oreg), s, oreg, c)
          \<in> set (filter (\<lambda>sbr. snd (snd (snd sbr)) = c) (reached s w))"
    by (simp add: f)
  then have "(subscription (obsRegs w oreg), s, oreg, c) \<in> set (reached s w)"
    by simp
  then have "oreg \<in> (\<lambda>sbr. fst (snd (snd sbr))) ` set (reached s w)" by force
  then show "result (obsRegs (emit s v w) oreg) = v" by (simp add: emit_obsRegs)
  have "filter ((=) c) (map (\<lambda>sbr. snd (snd (snd sbr))) (reached s w))
      = map (\<lambda>sbr. snd (snd (snd sbr))) (filter (\<lambda>sbr. snd (snd (snd sbr)) = c) (reached s w))"
    by (simp add: filter_map comp_def eq_commute)
  then show "length (filter ((=) c) (forceUpdates (emit s v w))) = Suc (length (filter ((=) c) (forceUpdates w)))"
    by (simp add: emit_frame f)
qed

section \<open>Reads and emissions of one observable\<close>

lemma async_stream_again:
  assumes "wf w" and "isStream s" and "componentRegistrations w (renderingRef w) = Some r"
    and "(s, oreg) \<in> set (observables (regs w r))"
  shows "async s w = (Inr (result (obsRegs w oreg)),
           updReg r (\<lambda>cr. cr\<lparr>recentlyUsedObservables := recentlyUsedObservables cr @ [s]\<rparr>) w)"
proof -
  have "distinct (map fst (observables (regs w r)))"
    using assms(1,3) by (auto simp: wf_def refsOk_def)
  then have "map_of (observables (regs w r)) s = Some oreg"
    using assms(4) by simp
  then show ?thesis
    using getObservableValue_again [OF assms(3), of s oreg] async_stream [of s w] assms(2)
    by (simp add: isStream_def)
qed

section \<open>The first pass of a component\<close>

lemma getPromiseValue_init_eq:
  "getPromiseValue p (init (renderingRef w) w) = getPromiseValue p w"
  by (rule getPromiseValue_init [symmetric])

lemma async_init_valid:
  assumes "isPromise obj = Inr True \<or> isStream obj"
  shows "async obj (init (renderingRef w) w) = async obj w"
proof (cases "isPromise obj = Inr True")
  case True
  then show ?thesis
    using async_promise [of obj w] async_promise [of obj "init (renderingRef w) w"]
          getPromiseValue_init [of obj w]
    by simp
next
  case False
  then have s: "isPromise obj = Inr False" "isSubscribable obj = Inr True"
    using assms by (simp_all add: isStream_def)
  show ?thesis
    using async_stream [OF s, of w] async_stream [OF s, of "init (renderingRef w) w"]
          getObservableValue_init [of obj w]
    by simp
qed

lemma init_consoleErrors:
  "init c (w\<lparr>consoleErrors := e\<rparr>) = (init c w)\<lparr>consoleErrors := e\<rparr>"
  by (simp add: init_def Let_def)

lemma run_init:
  assumes "\<exists>obj \<in> set (reads body w). isPromise obj = Inr True \<or> isStream obj"
  shows "run body (init (renderingRef w) w) = run body w
       \<and> reads body (init (renderingRef w) w) = reads body w"
  using assms
proof (induction body arbitrary: w)
  case (Return v)
  then show ?case by simp
next
  case (Read obj k)
  show ?case
  proof (cases "isPromise obj = Inr True \<or> isStream obj")
    case True
    then show ?thesis using async_init_valid [of obj w] by simp
  next
    case False
    then have inv: "isPromise obj = Inr False" "isSubscribable obj = Inr False"
      using isPromise_cases [of obj] isSubscribable_cases [of obj] by (auto simp: isStream_def)
    define w1 where "w1 = w\<lparr>consoleErrors := consoleErrors w @ [obj]\<rparr>"
    have a: "async obj w = (Inr Undefined, w1)"
      using async_invalid [OF inv, of w] by (simp add: w1_def)
    have rr: "renderingRef w1 = renderingRef w" by (simp add: w1_def)
    have a': "async obj (init (renderingRef w) w) = (Inr Undefined, init (renderingRef w1) w1)"
      using async_invalid [OF inv, of "init (renderingRef w) w"]
      by (simp add: w1_def init_consoleErrors init_def Let_def)
    have "\<exists>obj' \<in> set (reads (k Undefined) w1). isPromise obj' = Inr True \<or> isStream obj'"
      using Read.prems False a by auto
    then have "run (k Undefined) (init (renderingRef w1) w1) = run (k Undefined) w1
       \<and> reads (k Undefined) (init (renderingRef w1) w1) = reads (k Undefined) w1"
      using Read.IH [of "k Undefined" w1] by simp
    then show ?thesis by (simp add: a a')
  qed
qed

lemma wf_renderingRef: "wf (w\<lparr>renderingRef := c\<rparr>) = wf w"
  by (rule wf_cong) simp_all

text \<open>A render pass runs the body of the render function; \<open>passReads\<close> are its reads.\<close>

lemma hostRender_runs_body:
  assumes "rendersWith c n body w"
  shows "\<exists>w0. fst (hostRender c w) = fst (run body w0) \<and> passReads c n body w = reads body w0"
proof (cases "componentRegistrations w c")
  case None
  then have "render (components w c) = UserFn n body"
    using assms by (simp add: rendersWith_def)
  then have "hostRender c w = run body (w\<lparr>renderingRef := c, userCalls := userCalls w @ [n]\<rparr>)"
    by (simp add: hostRender_def Let_def)
  then have "fst (hostRender c w) = fst (run body (w\<lparr>renderingRef := c, userCalls := userCalls w @ [n]\<rparr>))
      \<and> passReads c n body w = reads body (w\<lparr>renderingRef := c, userCalls := userCalls w @ [n]\<rparr>)"
    using None by (simp add: passReads_def)
  then show ?thesis by blast
next
  case (Some r)
  then have slot: "render (components w c) = WRender c r (UserFn n body)"
    using assms by (simp add: rendersWith_def)
  have s: "(updReg r (\<lambda>cr. cr\<lparr>recentlyUsedObservables := []\<rparr>) (w\<lparr>renderingRef := c\<rparr>))
             \<lparr>userCalls := userCalls (updReg r (\<lambda>cr. cr\<lparr>recentlyUsedObservables := []\<rparr>)
                                        (w\<lparr>renderingRef := c\<rparr>)) @ [n]\<rparr>
           = passStart r n (w\<lparr>renderingRef := c\<rparr>)"
    by (simp add: passStart_def updReg_def)
  obtain res where res: "fst (run body (passStart r n (w\<lparr>renderingRef := c\<rparr>))) = Inr res"
    using run_no_throw by blast
  then obtain w2 where run: "run body (passStart r n (w\<lparr>renderingRef := c\<rparr>)) = (Inr res, w2)"
    by (cases "run body (passStart r n (w\<lparr>renderingRef := c\<rparr>))") auto
  have "fst (hostRender c w) = fst (run body (passStart r n (w\<lparr>renderingRef := c\<rparr>)))"
    by (simp add: hostRender_def slot Let_def s run)
  then have "fst (hostRender c w) = fst (run body (passStart r n (w\<lparr>renderingRef := c\<rparr>)))
      \<and> passReads c n body w = reads body (passStart r n (w\<lparr>renderingRef := c\<rparr>))"
    using Some by (simp add: passReads_def)
  then show ?thesis by blast
qed

lemma pass_registers_stream:
  assumes "wf w" and "rendersWith c n body w" and "isStream s"
    and "s \<in> set (passReads c n body w)"
  shows "\<exists>r. wf (pass c w) \<and> componentRegistrations (pass c w) c = Some r
           \<and> render (components (pass c w) c) = WRender c r (UserFn n body)
           \<and> s \<in> fst ` set (observables (regs (pass c w) r))"
proof (cases "componentRegistrations w c")
  case None
  define wS where "wS = w\<lparr>renderingRef := c, userCalls := userCalls w @ [n]\<rparr>"
  have slot: "render (components w c) = UserFn n body"
    using assms(2) None by (simp add: rendersWith_def)
  have p: "pass c w = snd (run body wS)"
    by (simp add: pass_def hostRender_def Let_def slot wS_def)
  have rd: "s \<in> set (reads body wS)"
    using assms(4) None by (simp add: passReads_def wS_def)
  have rr: "renderingRef wS = c" by (simp add: wS_def)
  have "\<exists>obj \<in> set (reads body wS). isPromise obj = Inr True \<or> isStream obj"
    using rd assms(3) by auto
  note ri = run_init [OF this, unfolded rr]
  define wi where "wi = init c wS"
  have wfS: "wf wS"
  proof -
    have "wf wS = wf w" unfolding wS_def by (rule wf_cong) simp_all
    then show ?thesis using assms(1) by simp
  qed
  have wfi: "wf wi" unfolding wi_def by (rule wf_init [OF wfS])
  have regS: "componentRegistrations wS c = None" using None by (simp add: wS_def)
  define r where "r = nextRef wS"
  have fri: "componentRegistrations wi c = Some r" "renderingRef wi = c"
    "render (components wi c) = WRender c r (UserFn n body)"
    using regS slot by (simp_all add: wi_def r_def init_def Let_def wS_def)
  have reg: "componentRegistrations wi (renderingRef wi) = Some r" by (simp add: fri)
  note pf = passFrame_run [OF reg, of body]
  have p': "pass c w = snd (run body wi)" using ri by (simp add: p wi_def)
  have rd': "s \<in> set (filter isStream (reads body wi))"
    using rd ri assms(3) by (simp add: wi_def)
  have "wf (pass c w)" unfolding p' by (rule wf_run [OF wfi])
  moreover have "componentRegistrations (pass c w) c = Some r"
    using pf fri by (simp add: p' passFrame_def)
  moreover have "render (components (pass c w) c) = WRender c r (UserFn n body)"
    using pf fri by (simp add: p' passFrame_def)
  moreover have "s \<in> fst ` set (observables (regs (pass c w) r))"
  proof -
    have "set (map fst (observables (regs (pass c w) r)))
        = set (map fst (observables (regs wi r))) \<union> set (filter isStream (reads body wi))"
      using pf unfolding p' passFrame_def by blast
    then show ?thesis using rd' by auto
  qed
  ultimately show ?thesis by blast
next
  case (Some r)
  define w0 where "w0 = w\<lparr>renderingRef := c\<rparr>"
  have slot: "render (components w c) = WRender c r (UserFn n body)"
    using assms(2) Some by (simp add: rendersWith_def)
  have p: "pass c w = snd (callHook (WRender c r (UserFn n body)) w0)"
    by (simp add: pass_def hostRender_def Let_def slot w0_def)
  have wf0: "wf w0" using assms(1) by (simp add: w0_def wf_renderingRef)
  have reg0: "componentRegistrations w0 c = Some r" "renderingRef w0 = c"
    using Some by (simp_all add: w0_def)
  note wp = wrapped_pass [OF wf0 reg0, where n = n and body = body, folded p]
  define xs where "xs = filter isStream (reads body (passStart r n w0))"
  have sx: "s \<in> set xs"
    using assms(3,4) Some by (simp add: xs_def passReads_def w0_def)
  have keys2: "set (map fst (observables (regs (snd (run body (passStart r n w0))) r)))
        = set (map fst (observables (regs (passStart r n w0) r))) \<union> set xs"
    using wp(2) unfolding passFrame_def xs_def by blast
  then have "s \<in> fst ` set (observables (regs (snd (run body (passStart r n w0))) r))"
    using sx by simp
  then obtain oreg where m2: "(s, oreg) \<in> set (observables (regs (snd (run body (passStart r n w0))) r))"
    by force
  have m: "(s, oreg) \<in> set (observables (regs (pass c w) r))"
    using m2 sx by (simp add: wp(6) xs_def)
  then have ne: "\<not> (observables (regs (pass c w) r) = [] \<and> promises (regs (pass c w) r) = [])"
    by auto
  have "componentRegistrations (pass c w) c = Some r"
    using wp(13) ne reg0 by simp
  moreover have "render (components (pass c w) c) = WRender c r (UserFn n body)"
    using wp(13) ne slot by (simp add: w0_def)
  moreover have "s \<in> fst ` set (observables (regs (pass c w) r))"
    using m by force
  ultimately show ?thesis using wp(4) by blast
qed

section \<open>Two passes and what happens between them\<close>

lemma envStep_frame:
  "componentRegistrations (envStep e w) = componentRegistrations w"
  "components (envStep e w) = components w"
  "observables (regs (envStep e w) r) = observables (regs w r)"
  "subscribers (envStep e w) = subscribers w"
  "unsubscribed (envStep e w) = unsubscribed w"
  "nextObsReg (envStep e w) = nextObsReg w"
  "subscription (obsRegs (envStep e w) a) = subscription (obsRegs w a)"
  by (cases e; simp add: emit_frame settle_other settle_frame settle_regs)+

lemma wf_envStep: "wf w \<Longrightarrow> wf (envStep e w)"
  by (cases e) (simp_all add: wf_settle wf_emit)

lemma env_frame:
  "componentRegistrations (fold envStep es w) = componentRegistrations w
   \<and> components (fold envStep es w) = components w
   \<and> observables (regs (fold envStep es w) r) = observables (regs w r)
   \<and> subscribers (fold envStep es w) = subscribers w
   \<and> unsubscribed (fold envStep es w) = unsubscribed w
   \<and> nextObsReg (fold envStep es w) = nextObsReg w
   \<and> subscription (obsRegs (fold envStep es w) a) = subscription (obsRegs w a)"
  by (induction es arbitrary: w) (simp_all add: envStep_frame)

lemma wf_env: "wf w \<Longrightarrow> wf (fold envStep es w)"
  by (induction es arbitrary: w) (simp_all add: wf_envStep)

lemma pass_reaps_unread:
  assumes "wf w" and "componentRegistrations w c = Some r"
    and "render (components w c) = WRender c r (UserFn n body)"
    and "(s, oreg) \<in> set (observables (regs w r))"
    and "s \<notin> set (passReads c n body w)"
  shows "wf (pass c w)"
    and "subscription (obsRegs w oreg) \<in> set (unsubscribed (pass c w))"
    and "s \<notin> fst ` set (observables (regs (pass c w) r))"
    and "componentRegistrations (pass c w) c = None \<or> componentRegistrations (pass c w) c = Some r"
proof -
  define w0 where "w0 = w\<lparr>renderingRef := c\<rparr>"
  have p: "pass c w = snd (callHook (WRender c r (UserFn n body)) w0)"
    by (simp add: pass_def hostRender_def Let_def assms(3) w0_def)
  have wf0: "wf w0" using assms(1) by (simp add: w0_def wf_renderingRef)
  have reg0: "componentRegistrations w0 c = Some r" "renderingRef w0 = c"
    using assms(2) by (simp_all add: w0_def)
  note wp = wrapped_pass [OF wf0 reg0, where n = n and body = body, folded p]
  define xs where "xs = filter isStream (reads body (passStart r n w0))"
  define w2 where "w2 = snd (run body (passStart r n w0))"
  have sx: "s \<notin> set xs"
    using assms(2,5) by (simp add: xs_def passReads_def w0_def)
  have pf: "passFrame r xs (passStart r n w0) w2"
    using wp(2) by (simp add: xs_def w2_def)
  have st: "observables (regs (passStart r n w0) r) = observables (regs w r)"
    "nextObsReg (passStart r n w0) = nextObsReg w" "obsRegs (passStart r n w0) = obsRegs w"
    by (simp_all add: passStart_def updReg_def w0_def)
  have m2: "(s, oreg) \<in> set (observables (regs w2 r))"
    using pf sx assms(4) unfolding passFrame_def st by blast
  have "(subscription (obsRegs w oreg), s, oreg, c) \<in> set (subscribers w)"
    using assms(1,2,4) unfolding wf_def boundLive_def by blast
  then have "oreg < nextObsReg w"
    using assms(1) unfolding wf_def subsOk_def by fastforce
  then have sub2: "subscription (obsRegs w2 oreg) = subscription (obsRegs w oreg)"
    using pf unfolding passFrame_def st by simp
  show "wf (pass c w)" by (rule wp(4))
  show "subscription (obsRegs w oreg) \<in> set (unsubscribed (pass c w))"
    using wp(7) [folded xs_def w2_def] m2 sx sub2 by fastforce
  show "s \<notin> fst ` set (observables (regs (pass c w) r))"
    using sx by (auto simp: wp(6) [folded xs_def w2_def])
  show "componentRegistrations (pass c w) c = None \<or> componentRegistrations (pass c w) c = Some r"
    using wp(12) wp(13) reg0 by (cases "observables (regs (pass c w) r) = [] \<and> promises (regs (pass c w) r) = []") simp_all
qed

lemma emission_misses_component:
  assumes "wf w"
    and "\<forall>r. componentRegistrations w c = Some r \<longrightarrow> s \<notin> fst ` set (observables (regs w r))"
  shows "filter ((=) c) (forceUpdates (emit s v w)) = filter ((=) c) (forceUpdates w)"
    and "componentRegistrations w c = Some r \<Longrightarrow> (obs, oreg) \<in> set (observables (regs w r)) \<Longrightarrow>
         obsRegs (emit s v w) oreg = obsRegs w oreg"
proof -
  have "c \<notin> (\<lambda>sbr. snd (snd (snd sbr))) ` set (reached s w)"
    by (rule reached_not_registered [OF assms])
  then have "filter ((=) c) (map (\<lambda>sbr. snd (snd (snd sbr))) (reached s w)) = []"
    by (auto simp: filter_empty_conv)
  then show "filter ((=) c) (forceUpdates (emit s v w)) = filter ((=) c) (forceUpdates w)"
    by (simp add: emit_frame)
  assume r: "componentRegistrations w c = Some r" and m: "(obs, oreg) \<in> set (observables (regs w r))"
  have "obs \<noteq> s" using assms(2) r m by force
  then have "oreg \<notin> (\<lambda>sbr. fst (snd (snd sbr))) ` set (reached s w)"
    by (rule reached_other_observable [OF assms(1) r m])
  then show "obsRegs (emit s v w) oreg = obsRegs w oreg"
    by (simp add: emit_obsRegs)
qed

text \<open>
  Claim C5. A component renders and reads the observable \<open>s\<close>; promises settle and
  observables emit; the component renders again and does not read \<open>s\<close>. Before the second
  pass \<open>s\<close> is registered for the component with a subscriber that is not unsubscribed;
  when the second pass returns, that subscription is unsubscribed and \<open>s\<close> is no longer
  registered; from then on, whatever settles or emits, an emission of \<open>s\<close> requests no
  re-render of the component and changes neither the registrations, nor the hooks, nor a
  registration object of an observable that the component still has.
\<close>

theorem unread_stream_is_unsubscribed:
  assumes "wf w" and "rendersWith c n body w" and "isStream s"
    and "s \<in> set (passReads c n body w)"
    and "s \<notin> set (passReads c n body (fold envStep es (pass c w)))"
  shows "\<exists>r oreg sb.
           componentRegistrations (fold envStep es (pass c w)) c = Some r
         \<and> (s, oreg) \<in> set (observables (regs (fold envStep es (pass c w)) r))
         \<and> (sb, s, oreg, c) \<in> set (subscribers (fold envStep es (pass c w)))
         \<and> sb \<notin> set (unsubscribed (fold envStep es (pass c w)))
         \<and> sb \<in> set (unsubscribed (pass c (fold envStep es (pass c w))))
         \<and> s \<notin> fst ` set (observables (regs (pass c (fold envStep es (pass c w))) r))
         \<and> (\<forall>es' v.
               filter ((=) c) (forceUpdates
                  (emit s v (fold envStep es' (pass c (fold envStep es (pass c w))))))
                = filter ((=) c) (forceUpdates
                  (fold envStep es' (pass c (fold envStep es (pass c w)))))
             \<and> regs (emit s v (fold envStep es' (pass c (fold envStep es (pass c w)))))
                = regs (fold envStep es' (pass c (fold envStep es (pass c w))))
             \<and> componentRegistrations (emit s v (fold envStep es' (pass c (fold envStep es (pass c w)))))
                = componentRegistrations (fold envStep es' (pass c (fold envStep es (pass c w))))
             \<and> components (emit s v (fold envStep es' (pass c (fold envStep es (pass c w)))))
                = components (fold envStep es' (pass c (fold envStep es (pass c w))))
             \<and> (\<forall>obs a. componentRegistrations (fold envStep es' (pass c (fold envStep es (pass c w)))) c = Some r
                    \<and> (obs, a) \<in> set (observables (regs (fold envStep es' (pass c (fold envStep es (pass c w)))) r))
                  \<longrightarrow> obsRegs (emit s v (fold envStep es' (pass c (fold envStep es (pass c w))))) a
                      = obsRegs (fold envStep es' (pass c (fold envStep es (pass c w)))) a))"
proof -
  obtain r where n1: "wf (pass c w)" "componentRegistrations (pass c w) c = Some r"
      "render (components (pass c w) c) = WRender c r (UserFn n body)"
      "s \<in> fst ` set (observables (regs (pass c w) r))"
    using pass_registers_stream [OF assms(1-4)] by blast
  define wN where "wN = fold envStep es (pass c w)"
  note ef = env_frame [of es "pass c w", folded wN_def]
  have wfN: "wf wN" unfolding wN_def by (rule wf_env [OF n1(1)])
  have regN: "componentRegistrations wN c = Some r" using ef n1(2) by simp
  have slotN: "render (components wN c) = WRender c r (UserFn n body)" using ef n1(3) by simp
  obtain oreg where mN: "(s, oreg) \<in> set (observables (regs wN r))"
    using n1(4) env_frame [of es "pass c w" r, folded wN_def] by force
  define sb where "sb = subscription (obsRegs wN oreg)"
  have subN: "(sb, s, oreg, c) \<in> set (subscribers wN)" "sb \<notin> set (unsubscribed wN)"
    using wfN regN mN unfolding wf_def boundLive_def sb_def by blast+
  define W where "W = pass c wN"
  note pr = pass_reaps_unread [OF wfN regN slotN mN assms(5) [folded wN_def], folded W_def sb_def]
  have later: "filter ((=) c) (forceUpdates (emit s v (fold envStep es' W)))
                = filter ((=) c) (forceUpdates (fold envStep es' W))
             \<and> regs (emit s v (fold envStep es' W)) = regs (fold envStep es' W)
             \<and> componentRegistrations (emit s v (fold envStep es' W))
                = componentRegistrations (fold envStep es' W)
             \<and> components (emit s v (fold envStep es' W)) = components (fold envStep es' W)
             \<and> (\<forall>obs a. componentRegistrations (fold envStep es' W) c = Some r
                    \<and> (obs, a) \<in> set (observables (regs (fold envStep es' W) r))
                  \<longrightarrow> obsRegs (emit s v (fold envStep es' W)) a = obsRegs (fold envStep es' W) a)"
    for es' v
  proof -
    define X where "X = fold envStep es' W"
    have wfX: "wf X" unfolding X_def by (rule wf_env [OF pr(1)])
    have regX: "componentRegistrations X = componentRegistrations W"
      and obsX: "\<And>r'. observables (regs X r') = observables (regs W r')"
      using env_frame [of es' W, folded X_def] by simp_all
    have nb: "\<forall>r'. componentRegistrations X c = Some r' \<longrightarrow> s \<notin> fst ` set (observables (regs X r'))"
      using pr(3) pr(4) by (auto simp: regX obsX)
    note em = emission_misses_component [OF wfX nb]
    have "\<forall>obs a. componentRegistrations X c = Some r \<and> (obs, a) \<in> set (observables (regs X r))
            \<longrightarrow> obsRegs (emit s v X) a = obsRegs X a"
      using em(2) [of r _ _ v] by blast
    then show ?thesis
      using em(1) [of v]
      by (simp add: X_def [symmetric] emit_frame)
  qed
  show ?thesis
    using regN mN subN pr(2) pr(3) later
    unfolding W_def wN_def by blast
qed

lemma isStream_sA': "isStream sA"
  by (simp add: isStream_def isStream_sA)

lemma worldQ_hyps:
  "rendersWith 0 7 bodyQ (world0 bodyQ)"
  "sA \<in> set (passReads 0 7 bodyQ (world0 bodyQ))"
  "sA \<notin> set (passReads 0 7 bodyQ worldQ)"
  by (simp_all add: worldQ_def bodyQ_def pass_def passReads_def passStart_def rendersWith_def
                    scenario_defs model_defs)

theorem unread_stream_is_unsubscribed_witness:
  "wf (world0 bodyQ) \<and> rendersWith 0 7 bodyQ (world0 bodyQ) \<and> isStream sA
   \<and> sA \<in> set (passReads 0 7 bodyQ (world0 bodyQ))
   \<and> sA \<notin> set (passReads 0 7 bodyQ (fold envStep [Settles pX (JStr ''X'')] (pass 0 (world0 bodyQ))))
   \<and> (\<exists>sb. sb \<notin> set (unsubscribed (fold envStep [Settles pX (JStr ''X'')] (pass 0 (world0 bodyQ))))
           \<and> sb \<in> set (unsubscribed (pass 0 (fold envStep [Settles pX (JStr ''X'')] (pass 0 (world0 bodyQ))))))
   \<and> filter ((=) 0) (forceUpdates (emit sA (JNum 2)
          (fold envStep [] (pass 0 (fold envStep [Settles pX (JStr ''X'')] (pass 0 (world0 bodyQ)))))))
      = filter ((=) 0) (forceUpdates
          (fold envStep [] (pass 0 (fold envStep [Settles pX (JStr ''X'')] (pass 0 (world0 bodyQ))))))"
proof -
  note h = wf_world0 [of bodyQ] worldQ_hyps(1) isStream_sA' worldQ_hyps(2)
           worldQ_hyps(3) [unfolded worldQ_def]
  show ?thesis
    using unread_stream_is_unsubscribed [OF h] h by blast
qed

section \<open>Reads of a promise around its settlement\<close>

text \<open>
  Claim C3. A component reads a promise that it has not registered, any number of times:
  every read returns \<open>null\<close>. The promise settles with some value \<open>v\<close>, \<open>undefined\<close>
  and \<open>null\<close> included, and the component reads again, any number of times: every read
  returns the one-element array of \<open>v\<close>, which differs from what the reads returned
  before.
\<close>

theorem settled_value_differs_from_marker:
  assumes "isPromise p = Inr True"
    and "\<forall>r. componentRegistrations w (renderingRef w) = Some r \<longrightarrow>
           \<not> map_has p (promises (regs w r))"
  shows "fst (async p (((\<lambda>x. snd (async p x)) ^^ j) w)) = Inr Null
       \<and> fst (async p (((\<lambda>x. snd (async p x)) ^^ k)
                 (settle p v (((\<lambda>x. snd (async p x)) ^^ Suc j) w)))) = Inr (JArr [v])
       \<and> fst (async p (((\<lambda>x. snd (async p x)) ^^ j) w))
           \<noteq> fst (async p (((\<lambda>x. snd (async p x)) ^^ k)
                 (settle p v (((\<lambda>x. snd (async p x)) ^^ Suc j) w))))"
proof -
  define c where "c = renderingRef w"
  define w0 where "w0 = init c w"
  obtain r where r: "componentRegistrations w0 c = Some r"
    using init_registers [of c w] by (auto simp: w0_def)
  have rr: "renderingRef w0 = c"
    by (simp add: w0_def c_def init_frame)
  have fresh: "\<not> map_has p (promises (regs w0 r))"
  proof (cases "componentRegistrations w c")
    case None
    then show ?thesis using r init_fresh_observables [of w c r] by (simp add: w0_def map_has_def)
  next
    case (Some r')
    then show ?thesis using r assms(2) by (auto simp: w0_def init_Some c_def)
  qed
  have a: "async p w = (Inr (fst (getPromiseValue p w0)), snd (getPromiseValue p w0))"
    using async_promise [OF assms(1), of w] getPromiseValue_init [of p w]
    by (simp add: w0_def c_def)
  have g1: "getPromiseValue p w0 =
     (Null, (updReg r (\<lambda>cr. cr\<lparr>promises := map_set p Null (promises cr)\<rparr>) w0)
              \<lparr>thens := thens w0 @ [(p, r, c)]\<rparr>)"
    using getPromiseValue_first [of w0 r p] r rr fresh by simp
  define w1 where "w1 = snd (async p w)"
  have first: "fst (async p w) = Inr Null" by (simp add: a g1)
  have w1: "componentRegistrations w1 (renderingRef w1) = Some r" "(p, r, c) \<in> set (thens w1)"
      "map_has p (promises (regs w1 r))" "map_get p (promises (regs w1 r)) = Null"
    using r by (simp_all add: w1_def a g1 updReg_def rr map_has_map_set map_get_map_set)
  have again1: "async p w1 = (Inr Null, w1)"
    using async_promise [OF assms(1), of w1] getPromiseValue_again [OF w1(1) w1(3)]
    by (simp add: w1(4))
  have pow1: "((\<lambda>x. snd (async p x)) ^^ i) w1 = w1" for i
    by (induction i) (simp_all add: again1)
  have powS: "((\<lambda>x. snd (async p x)) ^^ Suc i) w = w1" for i
  proof -
    have "((\<lambda>x. snd (async p x)) ^^ Suc i) w = ((\<lambda>x. snd (async p x)) ^^ i) (snd (async p w))"
      by (simp only: funpow_Suc_right comp_apply)
    then show ?thesis using pow1 [of i] by (simp add: w1_def)
  qed
  have before: "fst (async p (((\<lambda>x. snd (async p x)) ^^ j) w)) = Inr Null"
  proof (cases j)
    case 0
    then show ?thesis using first by simp
  next
    case (Suc i)
    then show ?thesis using powS [of i] again1 by simp
  qed
  define w2 where "w2 = settle p v w1"
  have w2: "componentRegistrations w2 (renderingRef w2) = Some r"
    by (simp add: w2_def settle_other w1)
  have p2: "promises (regs w2 r) = map_set p (JArr [v]) (promises (regs w1 r))"
    using w1(2) by (auto simp: w2_def settle_regs)
  have g2: "getPromiseValue p w2 = (JArr [v], w2)"
    using getPromiseValue_again [of w2 r p] w2 by (simp add: p2 map_has_map_set map_get_map_set)
  have again2: "async p w2 = (Inr (JArr [v]), w2)"
    using async_promise [OF assms(1), of w2] g2 by simp
  have pow2: "((\<lambda>x. snd (async p x)) ^^ i) w2 = w2" for i
    by (induction i) (simp_all add: again2)
  have after: "fst (async p (((\<lambda>x. snd (async p x)) ^^ k)
                 (settle p v (((\<lambda>x. snd (async p x)) ^^ Suc j) w)))) = Inr (JArr [v])"
    unfolding powS w2_def [symmetric] pow2 by (simp add: again2)
  show ?thesis
    unfolding before after by simp
qed

theorem settled_value_differs_from_marker_witness:
  "isPromise pX = Inr True
   \<and> componentRegistrations (world0 (readOne pX)) (renderingRef (world0 (readOne pX))) = None
   \<and> fst (async pX (((\<lambda>x. snd (async pX x)) ^^ 2) (world0 (readOne pX)))) = Inr Null
   \<and> fst (async pX (((\<lambda>x. snd (async pX x)) ^^ 1)
        (settle pX Undefined (((\<lambda>x. snd (async pX x)) ^^ Suc 2) (world0 (readOne pX))))))
       = Inr (JArr [Undefined])
   \<and> fst (async pX (((\<lambda>x. snd (async pX x)) ^^ 1)
        (settle pX Null (((\<lambda>x. snd (async pX x)) ^^ Suc 2) (world0 (readOne pX))))))
       = Inr (JArr [Null])"
  using settled_value_differs_from_marker [of pX "world0 (readOne pX)" 2 1 Undefined]
        settled_value_differs_from_marker [of pX "world0 (readOne pX)" 2 1 Null]
        isPromise_pX world0_unregistered
  by simp

section \<open>Callbacks after \<open>destroy\<close>\<close>

text \<open>
  Claim C2, amended. \<open>destroy\<close> unsubscribes every subscription of the registration.
  From then on, whatever settles or emits, an emission of any observable requests no
  re-render of the component and changes neither the registrations, nor the hooks, nor a
  registration object of the observables that the destroyed registration held: the
  emission does not reach the callback. The continuation of a promise is not guarded: run
  after \<open>destroy\<close>, it stores the array of the settled value in the removed
  registration object and requests a re-render of the component; it does not put the
  component back into \<open>componentRegistrations\<close> and does not touch the hooks.
\<close>

theorem late_callbacks_after_destroy:
  assumes "wf w" and "componentRegistrations w c = Some r"
  shows "(\<forall>(obs, oreg) \<in> set (observables (regs w r)).
            subscription (obsRegs w oreg) \<in> set (unsubscribed (destroy c w)))
       \<and> (\<forall>es s v.
             filter ((=) c) (forceUpdates (emit s v (fold envStep es (destroy c w))))
               = filter ((=) c) (forceUpdates (fold envStep es (destroy c w)))
           \<and> regs (emit s v (fold envStep es (destroy c w))) = regs (fold envStep es (destroy c w))
           \<and> componentRegistrations (emit s v (fold envStep es (destroy c w))) c = None
           \<and> components (emit s v (fold envStep es (destroy c w))) = components (destroy c w)
           \<and> (\<forall>(obs, oreg) \<in> set (observables (regs w r)).
                 obsRegs (emit s v (fold envStep es (destroy c w))) oreg
                   = obsRegs (fold envStep es (destroy c w)) oreg))
       \<and> componentRegistrations (onSettled p r c v (destroy c w)) c = None
       \<and> components (onSettled p r c v (destroy c w)) = components (destroy c w)
       \<and> forceUpdates (onSettled p r c v (destroy c w)) = forceUpdates w @ [c]
       \<and> promises (regs (onSettled p r c v (destroy c w)) r) = map_set p (JArr [v]) (promises (regs w r))"
proof -
  note d = destroy_Some [OF assms(2)]
  have uns: "\<forall>(obs, oreg) \<in> set (observables (regs w r)).
            subscription (obsRegs w oreg) \<in> set (unsubscribed (destroy c w))"
    by (auto simp: d)
  have wfd: "wf (destroy c w)" by (rule wf_destroy [OF assms(1)])
  have late: "filter ((=) c) (forceUpdates (emit s v' (fold envStep es (destroy c w))))
               = filter ((=) c) (forceUpdates (fold envStep es (destroy c w)))
           \<and> regs (emit s v' (fold envStep es (destroy c w))) = regs (fold envStep es (destroy c w))
           \<and> componentRegistrations (emit s v' (fold envStep es (destroy c w))) c = None
           \<and> components (emit s v' (fold envStep es (destroy c w))) = components (destroy c w)
           \<and> (\<forall>(obs, oreg) \<in> set (observables (regs w r)).
                 obsRegs (emit s v' (fold envStep es (destroy c w))) oreg
                   = obsRegs (fold envStep es (destroy c w)) oreg)"
    for es s v'
  proof -
    define X where "X = fold envStep es (destroy c w)"
    have wfX: "wf X" unfolding X_def by (rule wf_env [OF wfd])
    note ef = env_frame [of es "destroy c w", folded X_def]
    have regX: "componentRegistrations X c = None" using ef by (simp add: d)
    then have nb: "\<forall>r'. componentRegistrations X c = Some r' \<longrightarrow> s \<notin> fst ` set (observables (regs X r'))"
      by simp
    have fu: "filter ((=) c) (forceUpdates (emit s v' X)) = filter ((=) c) (forceUpdates X)"
      by (rule emission_misses_component(1) [OF wfX nb])
    have keep: "obsRegs (emit s v' X) oreg = obsRegs X oreg"
      if m: "(obs, oreg) \<in> set (observables (regs w r))" for obs oreg
    proof -
      have "oreg \<notin> (\<lambda>sbr. fst (snd (snd sbr))) ` set (reached s X)"
      proof
        assume "oreg \<in> (\<lambda>sbr. fst (snd (snd sbr))) ` set (reached s X)"
        then obtain sb c' where e: "(sb, s, oreg, c') \<in> set (subscribers X)" "sb \<notin> set (unsubscribed X)"
          by (auto simp: reached_iff)
        have "liveBound X" using wfX by (simp add: wf_def)
        then have "subscription (obsRegs X oreg) = sb"
          using e unfolding liveBound_def by fastforce
        moreover have "subscription (obsRegs X oreg) = subscription (obsRegs w oreg)"
          using env_frame [of es "destroy c w" _ oreg, folded X_def] by (simp add: d)
        moreover have "subscription (obsRegs w oreg) \<in> set (unsubscribed X)"
          using uns m ef by auto
        ultimately show False using e(2) by simp
      qed
      then show ?thesis by (simp add: emit_obsRegs)
    qed
    show ?thesis
      using fu keep regX ef by (auto simp: X_def [symmetric] emit_frame)
  qed
  have cont: "componentRegistrations (onSettled p r c v (destroy c w)) c = None
       \<and> components (onSettled p r c v (destroy c w)) = components (destroy c w)
       \<and> forceUpdates (onSettled p r c v (destroy c w)) = forceUpdates w @ [c]
       \<and> promises (regs (onSettled p r c v (destroy c w)) r) = map_set p (JArr [v]) (promises (regs w r))"
    by (simp add: d onSettled_def forceUpdate_def updReg_def)
  show ?thesis
    using uns late cont by blast
qed

theorem late_callbacks_after_destroy_witness:
  "wf worldS \<and> componentRegistrations worldS 0 = Some 0
   \<and> observables (regs worldS 0) = [(sA, 0)]
   \<and> subscription (obsRegs worldS 0) \<in> set (unsubscribed (destroy 0 worldS))
   \<and> filter ((=) 0) (forceUpdates (emit sA (JNum 1) (fold envStep [] (destroy 0 worldS))))
       = filter ((=) 0) (forceUpdates (fold envStep [] (destroy 0 worldS)))
   \<and> obsRegs (emit sA (JNum 1) (fold envStep [] (destroy 0 worldS))) 0
       = obsRegs (fold envStep [] (destroy 0 worldS)) 0
   \<and> componentRegistrations (onSettled pX 0 0 (JNum 1) (destroy 0 worldS)) 0 = None
   \<and> forceUpdates (onSettled pX 0 0 (JNum 1) (destroy 0 worldS)) = forceUpdates worldS @ [0]"
proof -
  note t = late_callbacks_after_destroy [OF wf_worldS worldS_registered, where p = pX and v = "JNum 1"]
  have a: "subscription (obsRegs worldS 0) \<in> set (unsubscribed (destroy 0 worldS))"
    using t worldS_observables by simp
  have b: "filter ((=) 0) (forceUpdates (emit sA (JNum 1) (fold envStep [] (destroy 0 worldS))))
       = filter ((=) 0) (forceUpdates (fold envStep [] (destroy 0 worldS)))
     \<and> obsRegs (emit sA (JNum 1) (fold envStep [] (destroy 0 worldS))) 0
       = obsRegs (fold envStep [] (destroy 0 worldS)) 0"
    using spec [OF spec [OF spec [OF t [THEN conjunct2, THEN conjunct1], where x = "[]"],
                           where x = sA], where x = "JNum 1"]
          worldS_observables
    by simp
  note c = t [THEN conjunct2, THEN conjunct2]
  show ?thesis
    using a b c wf_worldS worldS_registered worldS_observables by simp
qed

section \<open>What the reads of a component keep\<close>

lemma readsKeep_refl: "readsKeep r w w"
  by (simp add: readsKeep_def)

lemma readsKeep_trans:
  assumes "readsKeep r w w'" and "readsKeep r w' w''"
  shows "readsKeep r w w''"
proof -
  obtain ys where ys: "subscribers w' = subscribers w @ ys"
      "\<forall>sbr \<in> set ys. fst (snd sbr) \<notin> fst ` set (observables (regs w r))"
    using assms(1) unfolding readsKeep_def by blast
  obtain zs where zs: "subscribers w'' = subscribers w' @ zs"
      "\<forall>sbr \<in> set zs. fst (snd sbr) \<notin> fst ` set (observables (regs w' r))"
    using assms(2) unfolding readsKeep_def by blast
  have sub: "set (observables (regs w r)) \<subseteq> set (observables (regs w' r))"
    using assms(1) unfolding readsKeep_def by blast
  have "subscribers w'' = subscribers w @ (ys @ zs)" using ys zs by simp
  moreover have "\<forall>sbr \<in> set (ys @ zs). fst (snd sbr) \<notin> fst ` set (observables (regs w r))"
    using ys(2) zs(2) sub by auto
  ultimately have "\<exists>us. subscribers w'' = subscribers w @ us
              \<and> (\<forall>sbr \<in> set us. fst (snd sbr) \<notin> fst ` set (observables (regs w r)))"
    by blast
  moreover have "set (observables (regs w r)) \<subseteq> set (observables (regs w'' r))"
    using assms unfolding readsKeep_def by blast
  moreover have "nextObsReg w \<le> nextObsReg w''"
    using assms unfolding readsKeep_def by linarith
  moreover have "\<forall>oreg < nextObsReg w. obsRegs w'' oreg = obsRegs w oreg"
    using assms unfolding readsKeep_def by (metis less_le_trans)
  ultimately show ?thesis unfolding readsKeep_def by blast
qed

lemma readsKeep_async:
  assumes "componentRegistrations w (renderingRef w) = Some r"
  shows "readsKeep r w (snd (async obj w))"
proof (cases obj w rule: async_cases)
  case promise
  then show ?thesis
    using getPromiseValue_installed [OF assms, of obj] by (simp add: readsKeep_def)
next
  case stream
  show ?thesis
  proof (cases "map_of (observables (regs w r)) obj")
    case (Some oreg)
    then show ?thesis
      using getObservableValue_again [OF assms Some] stream
      by (simp add: readsKeep_def updReg_def)
  next
    case None
    then have fresh: "\<not> map_has obj (observables (regs w r))" by (simp add: map_has_def)
    then have fk: "obj \<notin> set (map fst (observables (regs w r)))" by (simp add: map_has_keys)
    then have fk': "obj \<notin> fst ` set (observables (regs w r))" by simp
    show ?thesis
    proof -
      note g = getObservableValue_first [OF assms fresh]
      have a: "async obj w = (Inr (fst (getObservableValue obj w)), snd (getObservableValue obj w))"
        using stream by simp
      show ?thesis
        unfolding readsKeep_def a
        using fk' by (auto simp: g map_set_fresh [OF fk])
    qed
  qed
next
  case invalid
  then show ?thesis by (simp add: readsKeep_def)
qed

lemma readsKeep_run:
  assumes "componentRegistrations w (renderingRef w) = Some r"
  shows "readsKeep r w (snd (run body w))"
  using assms
proof (induction body arbitrary: w)
  case (Return v)
  show ?case by (simp add: readsKeep_refl)
next
  case (Read obj k)
  obtain x w1 where a: "async obj w = (Inr x, w1)"
    using async_no_throw [of obj w] by (cases "async obj w") auto
  have f1: "readsKeep r w w1"
    using readsKeep_async [OF Read.prems, of obj] a by simp
  have "passFrame r (if isStream obj then [obj] else []) w w1"
    using passFrame_async [OF Read.prems, of obj] a by simp
  then have "componentRegistrations w1 (renderingRef w1) = Some r"
    using Read.prems by (simp add: passFrame_def)
  then have f2: "readsKeep r w1 (snd (run (k x) w1))"
    using Read.IH [of "k x" w1] by simp
  show ?case
    using readsKeep_trans [OF f1 f2] a by simp
qed

section \<open>The rendering component stays the same\<close>

lemma renderingRef_async: "renderingRef (snd (async obj w)) = renderingRef w"
proof -
  obtain r where r: "componentRegistrations (init (renderingRef w) w) (renderingRef w) = Some r"
    using init_registers by blast
  have rr: "renderingRef (init (renderingRef w) w) = renderingRef w" by (simp add: init_frame)
  have reg: "componentRegistrations (init (renderingRef w) w) (renderingRef (init (renderingRef w) w)) = Some r"
    using r rr by simp
  show ?thesis
  proof (cases obj w rule: async_cases)
    case promise
    then show ?thesis
      using getPromiseValue_installed(2) [OF reg, of obj] getPromiseValue_init [of obj w] rr by simp
  next
    case stream
    have "passFrame r [obj] (init (renderingRef w) w) (snd (getObservableValue obj (init (renderingRef w) w)))"
      by (rule passFrame_getObservableValue [OF reg])
    then show ?thesis
      using stream getObservableValue_init [of obj w] rr by (simp add: passFrame_def)
  next
    case invalid
    then show ?thesis by simp
  qed
qed

lemma renderingRef_run: "renderingRef (snd (run body w)) = renderingRef w"
proof (induction body arbitrary: w)
  case (Return v)
  show ?case by simp
next
  case (Read obj k)
  obtain x w1 where a: "async obj w = (Inr x, w1)"
    using async_no_throw [of obj w] by (cases "async obj w") auto
  have "renderingRef w1 = renderingRef w" using renderingRef_async [of obj w] a by simp
  then show ?case using a Read.IH [of "k x" w1] by simp
qed

lemma renderingRef_destroy: "renderingRef (destroy c w) = renderingRef w"
  by (cases "componentRegistrations w c") (simp_all add: destroy_Some destroy_None)

lemma renderingRef_unregisterObservable: "renderingRef (unregisterObservable c obs w) = renderingRef w"
  by (cases "componentRegistrations w c")
     (simp_all add: unregisterObservable_Some unregisterObservable_None)

lemma renderingRef_reap: "renderingRef (fold (unregisterObservable c) unused w) = renderingRef w"
  by (induction unused arbitrary: w) (simp_all add: renderingRef_unregisterObservable)

lemma renderingRef_callHook: "renderingRef (snd (callHook h w)) = renderingRef w"
proof (induction h arbitrary: w)
  case Absent
  show ?case by simp
next
  case (UserFn n body)
  show ?case by (simp add: renderingRef_run)
next
  case (WConnected c r orig)
  show ?case
    using WConnected.IH [of "init c w"]
    by (auto simp: Let_def init_frame split: prod.splits sum.splits)
next
  case (WDisconnected c r orig)
  show ?case
    using WDisconnected.IH [of "destroy c w"]
    by (auto simp: Let_def renderingRef_destroy split: prod.splits sum.splits)
next
  case (WRender c r orig)
  define w1 where "w1 = updReg r (\<lambda>cr. cr\<lparr>recentlyUsedObservables := []\<rparr>) w"
  have r1: "renderingRef w1 = renderingRef w" by (simp add: w1_def updReg_def)
  obtain x w2 where c: "callHook orig w1 = (x, w2)" by (cases "callHook orig w1")
  have r2: "renderingRef w2 = renderingRef w" using WRender.IH [of w1] c r1 by simp
  show ?case
    using c r2
    by (simp add: Let_def w1_def [symmetric] renderingRef_reap renderingRef_destroy split: sum.splits)
qed

lemma renderingRef_pass: "renderingRef (pass c w) = c"
  by (simp add: pass_def hostRender_def Let_def renderingRef_callHook)

lemma renderingRef_envStep: "renderingRef (envStep e w) = renderingRef w"
  by (cases e) (simp_all add: settle_other emit_frame)


section \<open>Reads, passes and emissions while an observable is registered\<close>

lemma registered_oreg_allocated:
  assumes "wf w" and "componentRegistrations w c = Some r"
    and "(s, oreg) \<in> set (observables (regs w r))"
  shows "oreg < nextObsReg w"
proof -
  have "(subscription (obsRegs w oreg), s, oreg, c) \<in> set (subscribers w)"
    using assms unfolding wf_def boundLive_def by blast
  then show ?thesis using assms(1) unfolding wf_def subsOk_def by fastforce
qed

text \<open>Every read of a registered observable in a render function returns what its registration object holds.\<close>

lemma answers_registered:
  assumes "wf w" and "isStream s" and "componentRegistrations w (renderingRef w) = Some r"
    and "(s, oreg) \<in> set (observables (regs w r))"
  shows "\<forall>(obj, x) \<in> set (answers body w). obj = s \<longrightarrow> x = result (obsRegs w oreg)"
  using assms
proof (induction body arbitrary: w)
  case (Return v)
  show ?case by simp
next
  case (Read obj k)
  obtain x w1 where a: "async obj w = (Inr x, w1)"
    using async_no_throw [of obj w] by (cases "async obj w") auto
  have wf1: "wf w1" using wf_async [OF Read.prems(1), of obj] a by simp
  have pf: "passFrame r (if isStream obj then [obj] else []) w w1"
    using passFrame_async [OF Read.prems(3), of obj] a by simp
  have rk: "readsKeep r w w1"
    using readsKeep_async [OF Read.prems(3), of obj] a by simp
  have reg1: "componentRegistrations w1 (renderingRef w1) = Some r"
    using pf Read.prems(3) by (simp add: passFrame_def)
  have m1: "(s, oreg) \<in> set (observables (regs w1 r))"
    using rk Read.prems(4) unfolding readsKeep_def by blast
  have "oreg < nextObsReg w"
    by (rule registered_oreg_allocated [OF Read.prems(1,3,4)])
  then have same: "obsRegs w1 oreg = obsRegs w oreg"
    using rk unfolding readsKeep_def by blast
  have ih: "\<forall>(obj, x) \<in> set (answers (k x) w1). obj = s \<longrightarrow> x = result (obsRegs w1 oreg)"
    using Read.IH [of "k x" w1] wf1 Read.prems(2) reg1 m1 by simp
  have hd: "obj = s \<longrightarrow> x = result (obsRegs w oreg)"
    using async_stream_again [OF Read.prems] a by auto
  show ?case
    using ih hd a same by auto
qed

lemma occur_keeps:
  assumes "wf w" and "isStream s" and "renderingRef w = c"
    and "componentRegistrations w c = Some r"
    and "(s, oreg) \<in> set (observables (regs w r))"
    and "render (components w c) = WRender c r (UserFn n body)"
    and "case oc of PassAgain \<Rightarrow> s \<in> set (passReads c n body w) | Happens e \<Rightarrow> True"
  shows "wf (occur c oc w)"
    and "renderingRef (occur c oc w) = c"
    and "componentRegistrations (occur c oc w) c = Some r"
    and "(s, oreg) \<in> set (observables (regs (occur c oc w) r))"
    and "render (components (occur c oc w) c) = WRender c r (UserFn n body)"
    and "filter (\<lambda>sbr. fst (snd sbr) = s \<and> snd (snd (snd sbr)) = c) (subscribers (occur c oc w))
           = filter (\<lambda>sbr. fst (snd sbr) = s \<and> snd (snd (snd sbr)) = c) (subscribers w)"
    and "result (obsRegs (occur c oc w) oreg)
           = (if emissionsOf s [oc] = [] then result (obsRegs w oreg) else last (emissionsOf s [oc]))"
proof -
  have reg: "componentRegistrations w (renderingRef w) = Some r" using assms(3,4) by simp
  have all: "wf (occur c oc w) \<and> renderingRef (occur c oc w) = c
      \<and> componentRegistrations (occur c oc w) c = Some r
      \<and> (s, oreg) \<in> set (observables (regs (occur c oc w) r))
      \<and> render (components (occur c oc w) c) = WRender c r (UserFn n body)
      \<and> filter (\<lambda>sbr. fst (snd sbr) = s \<and> snd (snd (snd sbr)) = c) (subscribers (occur c oc w))
           = filter (\<lambda>sbr. fst (snd sbr) = s \<and> snd (snd (snd sbr)) = c) (subscribers w)
      \<and> result (obsRegs (occur c oc w) oreg)
           = (if emissionsOf s [oc] = [] then result (obsRegs w oreg) else last (emissionsOf s [oc]))"
  proof (cases oc)
    case (Happens e)
    have wf': "wf (envStep e w)" by (rule wf_envStep [OF assms(1)])
    have res: "result (obsRegs (envStep e w) oreg)
           = (if emissionsOf s [Happens e] = [] then result (obsRegs w oreg)
              else last (emissionsOf s [Happens e]))"
    proof (cases e)
      case (Settles p v)
      then show ?thesis by (simp add: settle_frame)
    next
      case (Emits s' v)
      show ?thesis
      proof (cases "s' = s")
        case True
        then show ?thesis
          using emit_registered(1) [OF assms(1,4,5), of v] by (simp add: Emits)
      next
        case False
        then have "s \<noteq> s'" by simp
        then have "oreg \<notin> (\<lambda>sbr. fst (snd (snd sbr))) ` set (reached s' w)"
          by (rule reached_other_observable [OF assms(1,4,5)])
        then show ?thesis using False by (simp add: Emits emit_obsRegs)
      qed
    qed
    show ?thesis
      using wf' res assms(3,4,5,6)
      by (simp add: Happens envStep_frame renderingRef_envStep)
  next
    case PassAgain
    have w0: "w\<lparr>renderingRef := c\<rparr> = w" using assms(3) by simp
    have p: "pass c w = snd (callHook (WRender c r (UserFn n body)) w)"
      by (simp add: pass_def hostRender_def Let_def w0 assms(6))
    note wp = wrapped_pass [OF assms(1,4,3), where n = n and body = body, folded p]
    define xs where "xs = filter isStream (reads body (passStart r n w))"
    define w2 where "w2 = snd (run body (passStart r n w))"
    have sx: "s \<in> set xs"
      using assms(2,4,7) by (simp add: PassAgain xs_def passReads_def w0)
    have st: "observables (regs (passStart r n w) r) = observables (regs w r)"
      "nextObsReg (passStart r n w) = nextObsReg w" "obsRegs (passStart r n w) = obsRegs w"
      "subscribers (passStart r n w) = subscribers w"
      "componentRegistrations (passStart r n w) (renderingRef (passStart r n w)) = Some r"
      using reg by (simp_all add: passStart_def updReg_def)
    have rk: "readsKeep r (passStart r n w) w2"
      unfolding w2_def by (rule readsKeep_run [OF st(5)])
    have m2: "(s, oreg) \<in> set (observables (regs w2 r))"
      using rk assms(5) unfolding readsKeep_def st by blast
    have m': "(s, oreg) \<in> set (observables (regs (pass c w) r))"
      using m2 sx by (simp add: wp(6) [folded xs_def w2_def])
    then have ne: "\<not> (observables (regs (pass c w) r) = [] \<and> promises (regs (pass c w) r) = [])"
      by auto
    have keep: "componentRegistrations (pass c w) = componentRegistrations w"
      "components (pass c w) = components w"
      using wp(13) ne by simp_all
    have "oreg < nextObsReg w"
      by (rule registered_oreg_allocated [OF assms(1,4,5)])
    then have "obsRegs w2 oreg = obsRegs w oreg"
      using rk unfolding readsKeep_def st by blast
    then have res: "result (obsRegs (pass c w) oreg) = result (obsRegs w oreg)"
      by (simp add: wp(9) [folded w2_def])
    obtain ys where ys: "subscribers w2 = subscribers w @ ys"
      "\<forall>sbr \<in> set ys. fst (snd sbr) \<notin> fst ` set (observables (regs w r))"
      using rk unfolding readsKeep_def st by blast
    have "s \<in> fst ` set (observables (regs w r))" using assms(5) by force
    then have "filter (\<lambda>sbr. fst (snd sbr) = s \<and> snd (snd (snd sbr)) = c) ys = []"
      using ys(2) by (auto simp: filter_empty_conv)
    then have subs: "filter (\<lambda>sbr. fst (snd sbr) = s \<and> snd (snd (snd sbr)) = c) (subscribers (pass c w))
           = filter (\<lambda>sbr. fst (snd sbr) = s \<and> snd (snd (snd sbr)) = c) (subscribers w)"
      by (simp add: wp(10) [folded w2_def] ys(1))
    show ?thesis
      using wp(4) m' keep res subs assms(3,4,6)
      by (simp add: PassAgain renderingRef_pass)
  qed
  show "wf (occur c oc w)"
    and "renderingRef (occur c oc w) = c"
    and "componentRegistrations (occur c oc w) c = Some r"
    and "(s, oreg) \<in> set (observables (regs (occur c oc w) r))"
    and "render (components (occur c oc w) c) = WRender c r (UserFn n body)"
    and "filter (\<lambda>sbr. fst (snd sbr) = s \<and> snd (snd (snd sbr)) = c) (subscribers (occur c oc w))
           = filter (\<lambda>sbr. fst (snd sbr) = s \<and> snd (snd (snd sbr)) = c) (subscribers w)"
    and "result (obsRegs (occur c oc w) oreg)
           = (if emissionsOf s [oc] = [] then result (obsRegs w oreg) else last (emissionsOf s [oc]))"
    using all by blast+
qed


lemma emissionsOf_Cons: "emissionsOf s (oc # os) = emissionsOf s [oc] @ emissionsOf s os"
proof (cases oc)
  case PassAgain
  then show ?thesis by simp
next
  case (Happens e)
  then show ?thesis by (cases e) simp_all
qed

lemma occurs_keep:
  assumes "wf w" and "isStream s" and "renderingRef w = c"
    and "componentRegistrations w c = Some r"
    and "(s, oreg) \<in> set (observables (regs w r))"
    and "render (components w c) = WRender c r (UserFn n body)"
    and "passesRead c s n body os w"
  shows "wf (fold (occur c) os w)
       \<and> renderingRef (fold (occur c) os w) = c
       \<and> componentRegistrations (fold (occur c) os w) c = Some r
       \<and> (s, oreg) \<in> set (observables (regs (fold (occur c) os w) r))
       \<and> render (components (fold (occur c) os w) c) = WRender c r (UserFn n body)
       \<and> filter (\<lambda>sbr. fst (snd sbr) = s \<and> snd (snd (snd sbr)) = c) (subscribers (fold (occur c) os w))
           = filter (\<lambda>sbr. fst (snd sbr) = s \<and> snd (snd (snd sbr)) = c) (subscribers w)
       \<and> result (obsRegs (fold (occur c) os w) oreg)
           = (if emissionsOf s os = [] then result (obsRegs w oreg) else last (emissionsOf s os))"
  using assms
proof (induction os arbitrary: w)
  case Nil
  then show ?case by simp
next
  case (Cons oc os)
  have rd: "case oc of PassAgain \<Rightarrow> s \<in> set (passReads c n body w) | Happens e \<Rightarrow> True"
    and rest: "passesRead c s n body os (occur c oc w)"
    using Cons.prems(7) by simp_all
  note st = occur_keeps [OF Cons.prems(1-6) rd]
  note ih = Cons.IH [OF st(1) Cons.prems(2) st(2) st(3) st(4) st(5) rest]
  have e: "emissionsOf s (oc # os) = emissionsOf s [oc] @ emissionsOf s os"
    by (rule emissionsOf_Cons)
  show ?case
    using ih st(6) st(7) by (simp add: e)
qed

section \<open>The pass in which a component reads an observable first\<close>

lemma async_adds:
  assumes "componentRegistrations w (renderingRef w) = Some r"
  shows "syncEmits (snd (async obj w)) = syncEmits w"
    and "\<exists>ys. subscribers (snd (async obj w)) = subscribers w @ ys
              \<and> (\<forall>sbr \<in> set ys. fst (snd sbr) = obj)"
proof -
  have "syncEmits (snd (async obj w)) = syncEmits w
    \<and> (\<exists>ys. subscribers (snd (async obj w)) = subscribers w @ ys
              \<and> (\<forall>sbr \<in> set ys. fst (snd sbr) = obj))"
  proof (cases obj w rule: async_cases)
    case promise
    have "syncEmits (snd (getPromiseValue obj w)) = syncEmits w"
      using assms
      by (simp add: getPromiseValue_def getComponentRegistration_Some updReg_def Let_def)
    then show ?thesis
      using getPromiseValue_installed(5) [OF assms, of obj] promise by simp
  next
    case stream
    show ?thesis
    proof (cases "map_of (observables (regs w r)) obj")
      case (Some oreg)
      then show ?thesis
        using getObservableValue_again [OF assms Some] stream by (simp add: updReg_def)
    next
      case None
      then have fresh: "\<not> map_has obj (observables (regs w r))" by (simp add: map_has_def)
      show ?thesis
        using stream by (simp add: getObservableValue_first [OF assms fresh])
    qed
  next
    case invalid
    then show ?thesis by simp
  qed
  then show "syncEmits (snd (async obj w)) = syncEmits w"
    and "\<exists>ys. subscribers (snd (async obj w)) = subscribers w @ ys
              \<and> (\<forall>sbr \<in> set ys. fst (snd sbr) = obj)"
    by blast+
qed

text \<open>
  A render function runs for a registered component that has not registered the
  observable \<open>s\<close>: every read of \<open>s\<close> returns what \<open>s\<close> emitted while subscribing, and
  if there is a read of \<open>s\<close>, then \<open>s\<close> is registered afterwards and has got one subscriber
  more for the component.
\<close>

lemma run_first_read:
  assumes "wf w" and "isStream s" and "componentRegistrations w (renderingRef w) = Some r"
    and "s \<notin> fst ` set (observables (regs w r))"
  shows "(\<forall>(obj, x) \<in> set (answers body w). obj = s \<longrightarrow> x = cached (syncEmits w s))
       \<and> (s \<in> set (reads body w) \<longrightarrow>
            (\<exists>oreg. (s, oreg) \<in> set (observables (regs (snd (run body w)) r))
               \<and> result (obsRegs (snd (run body w)) oreg) = cached (syncEmits w s)
               \<and> length (filter (\<lambda>sbr. fst (snd sbr) = s \<and> snd (snd (snd sbr)) = renderingRef w)
                                (subscribers (snd (run body w))))
                  = Suc (length (filter (\<lambda>sbr. fst (snd sbr) = s \<and> snd (snd (snd sbr)) = renderingRef w)
                                        (subscribers w)))))"
  using assms
proof (induction body arbitrary: w)
  case (Return v)
  show ?case by simp
next
  case (Read obj k)
  obtain x w1 where a: "async obj w = (Inr x, w1)"
    using async_no_throw [of obj w] by (cases "async obj w") auto
  have wf1: "wf w1" using wf_async [OF Read.prems(1), of obj] a by simp
  have pf: "passFrame r (if isStream obj then [obj] else []) w w1"
    using passFrame_async [OF Read.prems(3), of obj] a by simp
  have rr1: "renderingRef w1 = renderingRef w" using pf by (simp add: passFrame_def)
  have reg1: "componentRegistrations w1 (renderingRef w1) = Some r"
    using pf Read.prems(3) by (simp add: passFrame_def)
  show ?case
  proof (cases "obj = s")
    case True
    have fk: "s \<notin> set (map fst (observables (regs w r)))" using Read.prems(4) by simp
    then have fresh: "\<not> map_has s (observables (regs w r))" by (simp add: map_has_keys)
    note g = getObservableValue_first [OF Read.prems(3) fresh]
    have as: "async s w = (Inr (fst (getObservableValue s w)), snd (getObservableValue s w))"
      using async_stream [of s w] Read.prems(2) by (simp add: isStream_def)
    have x: "x = cached (syncEmits w s)"
      using a as True by (simp add: g cached_def)
    have w1: "w1 = snd (getObservableValue s w)" using a as True by simp
    have m1: "(s, nextObsReg w) \<in> set (observables (regs w1 r))"
      by (simp add: w1 g map_set_fresh [OF fk])
    have res1: "result (obsRegs w1 (nextObsReg w)) = cached (syncEmits w s)"
      by (simp add: w1 g cached_def)
    have sub1: "subscribers w1 = subscribers w @ [(nextSub w, s, nextObsReg w, renderingRef w)]"
      by (simp add: w1 g)
    have n1: "nextObsReg w < nextObsReg w1" by (simp add: w1 g)
    have ar: "\<forall>(obj, x) \<in> set (answers (k x) w1). obj = s \<longrightarrow> x = result (obsRegs w1 (nextObsReg w))"
      by (rule answers_registered [OF wf1 Read.prems(2) reg1 m1])
    have rk: "readsKeep r w1 (snd (run (k x) w1))"
      by (rule readsKeep_run [OF reg1])
    have m2: "(s, nextObsReg w) \<in> set (observables (regs (snd (run (k x) w1)) r))"
      using rk m1 unfolding readsKeep_def by blast
    have res2: "result (obsRegs (snd (run (k x) w1)) (nextObsReg w)) = cached (syncEmits w s)"
      using rk n1 res1 unfolding readsKeep_def by simp
    obtain ys where ys: "subscribers (snd (run (k x) w1)) = subscribers w1 @ ys"
      "\<forall>sbr \<in> set ys. fst (snd sbr) \<notin> fst ` set (observables (regs w1 r))"
      using rk unfolding readsKeep_def by blast
    have "s \<in> fst ` set (observables (regs w1 r))" using m1 by force
    then have "filter (\<lambda>sbr. fst (snd sbr) = s \<and> snd (snd (snd sbr)) = renderingRef w) ys = []"
      using ys(2) by (auto simp: filter_empty_conv)
    then have cnt: "length (filter (\<lambda>sbr. fst (snd sbr) = s \<and> snd (snd (snd sbr)) = renderingRef w)
                                (subscribers (snd (run (k x) w1))))
                  = Suc (length (filter (\<lambda>sbr. fst (snd sbr) = s \<and> snd (snd (snd sbr)) = renderingRef w)
                                        (subscribers w)))"
      by (simp add: ys(1) sub1)
    have one: "\<forall>(obj, x) \<in> set (answers (Read obj k) w). obj = s \<longrightarrow> x = cached (syncEmits w s)"
      using ar x a res1 by auto
    have two: "\<exists>oreg. (s, oreg) \<in> set (observables (regs (snd (run (Read obj k) w)) r))
               \<and> result (obsRegs (snd (run (Read obj k) w)) oreg) = cached (syncEmits w s)
               \<and> length (filter (\<lambda>sbr. fst (snd sbr) = s \<and> snd (snd (snd sbr)) = renderingRef w)
                                (subscribers (snd (run (Read obj k) w))))
                  = Suc (length (filter (\<lambda>sbr. fst (snd sbr) = s \<and> snd (snd (snd sbr)) = renderingRef w)
                                        (subscribers w)))"
      using m2 res2 cnt a by auto
    show ?thesis using one two by blast
  next
    case False
    have "set (map fst (observables (regs w1 r)))
            = set (map fst (observables (regs w r))) \<union> set (if isStream obj then [obj] else [])"
      using pf by (simp add: passFrame_def)
    then have unreg1: "s \<notin> fst ` set (observables (regs w1 r))"
      using Read.prems(4) False by (cases "isStream obj") auto
    have se: "syncEmits w1 = syncEmits w"
      using async_adds(1) [OF Read.prems(3), of obj] a by simp
    obtain ys where ys: "subscribers w1 = subscribers w @ ys" "\<forall>sbr \<in> set ys. fst (snd sbr) = obj"
      using async_adds(2) [OF Read.prems(3), of obj] a by auto
    have "filter (\<lambda>sbr. fst (snd sbr) = s \<and> snd (snd (snd sbr)) = renderingRef w) ys = []"
      using ys(2) False by (auto simp: filter_empty_conv)
    then have sub1: "filter (\<lambda>sbr. fst (snd sbr) = s \<and> snd (snd (snd sbr)) = renderingRef w) (subscribers w1)
        = filter (\<lambda>sbr. fst (snd sbr) = s \<and> snd (snd (snd sbr)) = renderingRef w) (subscribers w)"
      by (simp add: ys(1))
    note ih = Read.IH [of "k x" w1, OF _ wf1 Read.prems(2) reg1 unreg1, unfolded rr1 se sub1]
    have rd: "(s \<in> set (reads (Read obj k) w)) = (s \<in> set (reads (k x) w1))"
      using False a by auto
    show ?thesis
      using ih rd a False by auto
  qed
qed


lemma answers_init:
  assumes "\<exists>obj \<in> set (reads body w). isPromise obj = Inr True \<or> isStream obj"
  shows "answers body (init (renderingRef w) w) = answers body w"
  using assms
proof (induction body arbitrary: w)
  case (Return v)
  then show ?case by simp
next
  case (Read obj k)
  show ?case
  proof (cases "isPromise obj = Inr True \<or> isStream obj")
    case True
    then show ?thesis using async_init_valid [of obj w] by simp
  next
    case False
    then have inv: "isPromise obj = Inr False" "isSubscribable obj = Inr False"
      using isPromise_cases [of obj] isSubscribable_cases [of obj] by (auto simp: isStream_def)
    define w1 where "w1 = w\<lparr>consoleErrors := consoleErrors w @ [obj]\<rparr>"
    have a: "async obj w = (Inr Undefined, w1)"
      using async_invalid [OF inv, of w] by (simp add: w1_def)
    have rr: "renderingRef w1 = renderingRef w" by (simp add: w1_def)
    have a': "async obj (init (renderingRef w) w) = (Inr Undefined, init (renderingRef w1) w1)"
      using async_invalid [OF inv, of "init (renderingRef w) w"]
      by (simp add: w1_def init_consoleErrors init_def Let_def)
    have "\<exists>obj' \<in> set (reads (k Undefined) w1). isPromise obj' = Inr True \<or> isStream obj'"
      using Read.prems False a by auto
    then have "answers (k Undefined) (init (renderingRef w1) w1) = answers (k Undefined) w1"
      using Read.IH [of "k Undefined" w1] by simp
    then show ?thesis by (simp add: a a')
  qed
qed

text \<open>
  The render pass in which a component reads an observable that it has not registered:
  every read of the observable in the pass returns what the observable emitted while
  subscribing, and after the pass the component is registered with the wrapper of its
  render function in place, the observable is registered, and the observable has got one
  subscriber more for the component.
\<close>

lemma first_pass:
  assumes "wf w" and "isStream s" and "rendersWith c n body w"
    and "\<forall>r. componentRegistrations w c = Some r \<longrightarrow> s \<notin> fst ` set (observables (regs w r))"
    and "s \<in> set (passReads c n body w)"
  shows "(\<forall>(obj, x) \<in> set (passAnswers c n body w). obj = s \<longrightarrow> x = cached (syncEmits w s))
       \<and> (\<exists>r oreg. wf (pass c w) \<and> renderingRef (pass c w) = c
             \<and> componentRegistrations (pass c w) c = Some r
             \<and> (s, oreg) \<in> set (observables (regs (pass c w) r))
             \<and> render (components (pass c w) c) = WRender c r (UserFn n body)
             \<and> result (obsRegs (pass c w) oreg) = cached (syncEmits w s)
             \<and> length (filter (\<lambda>sbr. fst (snd sbr) = s \<and> snd (snd (snd sbr)) = c) (subscribers (pass c w)))
                = Suc (length (filter (\<lambda>sbr. fst (snd sbr) = s \<and> snd (snd (snd sbr)) = c) (subscribers w))))"
proof (cases "componentRegistrations w c")
  case None
  define wS where "wS = w\<lparr>renderingRef := c, userCalls := userCalls w @ [n]\<rparr>"
  have slot: "render (components w c) = UserFn n body"
    using assms(3) None by (simp add: rendersWith_def)
  have p: "pass c w = snd (run body wS)"
    by (simp add: pass_def hostRender_def Let_def slot wS_def)
  have rd: "s \<in> set (reads body wS)"
    using assms(5) None by (simp add: passReads_def wS_def)
  have pa: "passAnswers c n body w = answers body wS"
    using None by (simp add: passAnswers_def wS_def)
  have rr: "renderingRef wS = c" by (simp add: wS_def)
  have ex: "\<exists>obj \<in> set (reads body wS). isPromise obj = Inr True \<or> isStream obj"
    using rd assms(2) by auto
  note ri = run_init [OF ex, unfolded rr]
  note ai = answers_init [OF ex, unfolded rr]
  define wi where "wi = init c wS"
  have wfS: "wf wS"
  proof -
    have "wf wS = wf w" unfolding wS_def by (rule wf_cong) simp_all
    then show ?thesis using assms(1) by simp
  qed
  have wfi: "wf wi" unfolding wi_def by (rule wf_init [OF wfS])
  have regS: "componentRegistrations wS c = None" using None by (simp add: wS_def)
  define r where "r = nextRef wS"
  have fri: "componentRegistrations wi c = Some r" "renderingRef wi = c"
    "render (components wi c) = WRender c r (UserFn n body)"
    using regS slot by (simp_all add: wi_def r_def init_def Let_def wS_def)
  have reg: "componentRegistrations wi (renderingRef wi) = Some r" by (simp add: fri)
  have fr: "syncEmits wi = syncEmits w" "subscribers wi = subscribers w"
    by (simp_all add: wi_def init_frame wS_def)
  have unreg: "s \<notin> fst ` set (observables (regs wi r))"
    using init_fresh_observables [OF regS, of r] fri(1) by (simp add: wi_def)
  have p': "pass c w = snd (run body wi)" using ri by (simp add: p wi_def)
  have rd': "s \<in> set (reads body wi)" using rd ri by (simp add: wi_def)
  have pa': "passAnswers c n body w = answers body wi" using ai by (simp add: pa wi_def)
  note rf = run_first_read [OF wfi assms(2) reg unreg, of body, unfolded fri(2) fr, folded p' pa']
  note pf = passFrame_run [OF reg, of body, folded p']
  have one: "\<forall>(obj, x) \<in> set (passAnswers c n body w). obj = s \<longrightarrow> x = cached (syncEmits w s)"
    using rf by blast
  obtain oreg where o: "(s, oreg) \<in> set (observables (regs (pass c w) r))"
      "result (obsRegs (pass c w) oreg) = cached (syncEmits w s)"
      "length (filter (\<lambda>sbr. fst (snd sbr) = s \<and> snd (snd (snd sbr)) = c) (subscribers (pass c w))) = Suc (length (filter (\<lambda>sbr. fst (snd sbr) = s \<and> snd (snd (snd sbr)) = c) (subscribers w)))"
    using rf rd' by blast
  have "wf (pass c w)" unfolding p' by (rule wf_run [OF wfi])
  moreover have "renderingRef (pass c w) = c" by (rule renderingRef_pass)
  moreover have "componentRegistrations (pass c w) c = Some r"
    using pf fri by (simp add: passFrame_def)
  moreover have "render (components (pass c w) c) = WRender c r (UserFn n body)"
    using pf fri by (simp add: passFrame_def)
  ultimately have two: "\<exists>r oreg. wf (pass c w) \<and> renderingRef (pass c w) = c
             \<and> componentRegistrations (pass c w) c = Some r
             \<and> (s, oreg) \<in> set (observables (regs (pass c w) r))
             \<and> render (components (pass c w) c) = WRender c r (UserFn n body)
             \<and> result (obsRegs (pass c w) oreg) = cached (syncEmits w s)
             \<and> length (filter (\<lambda>sbr. fst (snd sbr) = s \<and> snd (snd (snd sbr)) = c) (subscribers (pass c w)))
                = Suc (length (filter (\<lambda>sbr. fst (snd sbr) = s \<and> snd (snd (snd sbr)) = c) (subscribers w)))"
    using o by blast
  show ?thesis using one two by blast
next
  case (Some r)
  define w0 where "w0 = w\<lparr>renderingRef := c\<rparr>"
  have slot: "render (components w c) = WRender c r (UserFn n body)"
    using assms(3) Some by (simp add: rendersWith_def)
  have wf0: "wf w0" using assms(1) by (simp add: w0_def wf_renderingRef)
  have reg0: "componentRegistrations w0 c = Some r" using Some by (simp add: w0_def)
  have rr0: "renderingRef w0 = c" by (simp add: w0_def)
  have p: "pass c w = snd (callHook (WRender c r (UserFn n body)) w0)"
    by (simp add: pass_def hostRender_def Let_def slot w0_def)
  note wp = wrapped_pass [OF wf0 reg0 rr0, where n = n and body = body, folded p]
  define wA where "wA = passStart r n w0"
  define xs where "xs = filter isStream (reads body wA)"
  define w2 where "w2 = snd (run body wA)"
  have wfA: "wf wA"
  proof -
    have "wf wA = wf w0" unfolding wA_def passStart_def by (rule wf_cong) (simp_all add: updReg_def)
    then show ?thesis using wf0 by simp
  qed
  have frA: "renderingRef wA = c" "syncEmits wA = syncEmits w" "subscribers wA = subscribers w"
    "observables (regs wA r) = observables (regs w r)"
    "componentRegistrations wA = componentRegistrations w" "components wA = components w"
    by (simp_all add: wA_def w0_def passStart_def updReg_def)
  have regA: "componentRegistrations wA (renderingRef wA) = Some r"
    using Some by (simp add: frA)
  have unreg: "s \<notin> fst ` set (observables (regs wA r))"
    using assms(4) Some by (simp add: frA)
  have rd: "s \<in> set (reads body wA)"
    using assms(5) Some by (simp add: passReads_def wA_def w0_def)
  have pa: "passAnswers c n body w = answers body wA"
    using Some by (simp add: passAnswers_def wA_def w0_def)
  note rf = run_first_read [OF wfA assms(2) regA unreg, of body, unfolded frA(1,2,3), folded pa w2_def]
  have one: "\<forall>(obj, x) \<in> set (passAnswers c n body w). obj = s \<longrightarrow> x = cached (syncEmits w s)"
    using rf by blast
  obtain oreg where o: "(s, oreg) \<in> set (observables (regs w2 r))"
      "result (obsRegs w2 oreg) = cached (syncEmits w s)"
      "length (filter (\<lambda>sbr. fst (snd sbr) = s \<and> snd (snd (snd sbr)) = c) (subscribers w2)) = Suc (length (filter (\<lambda>sbr. fst (snd sbr) = s \<and> snd (snd (snd sbr)) = c) (subscribers w)))"
    using rf rd by blast
  have sx: "s \<in> set xs" using rd assms(2) by (simp add: xs_def)
  have m': "(s, oreg) \<in> set (observables (regs (pass c w) r))"
    using o(1) sx by (simp add: wp(6) [folded wA_def, folded xs_def w2_def])
  then have ne: "\<not> (observables (regs (pass c w) r) = [] \<and> promises (regs (pass c w) r) = [])"
    by auto
  have keep: "componentRegistrations (pass c w) = componentRegistrations w"
    "components (pass c w) = components w"
    using wp(13) ne by (simp_all add: w0_def)
  have "wf (pass c w)" by (rule wp(4))
  moreover have "renderingRef (pass c w) = c" by (rule renderingRef_pass)
  moreover have "componentRegistrations (pass c w) c = Some r"
    using keep Some by simp
  moreover have "render (components (pass c w) c) = WRender c r (UserFn n body)"
    using keep slot by simp
  moreover have "result (obsRegs (pass c w) oreg) = cached (syncEmits w s)"
    using o(2) by (simp add: wp(9) [folded wA_def, folded w2_def])
  moreover have "length (filter (\<lambda>sbr. fst (snd sbr) = s \<and> snd (snd (snd sbr)) = c) (subscribers (pass c w))) = Suc (length (filter (\<lambda>sbr. fst (snd sbr) = s \<and> snd (snd (snd sbr)) = c) (subscribers w)))"
    using o(3) by (simp add: wp(10) [folded wA_def, folded w2_def])
  ultimately have two: "\<exists>r oreg. wf (pass c w) \<and> renderingRef (pass c w) = c
             \<and> componentRegistrations (pass c w) c = Some r
             \<and> (s, oreg) \<in> set (observables (regs (pass c w) r))
             \<and> render (components (pass c w) c) = WRender c r (UserFn n body)
             \<and> result (obsRegs (pass c w) oreg) = cached (syncEmits w s)
             \<and> length (filter (\<lambda>sbr. fst (snd sbr) = s \<and> snd (snd (snd sbr)) = c) (subscribers (pass c w)))
                = Suc (length (filter (\<lambda>sbr. fst (snd sbr) = s \<and> snd (snd (snd sbr)) = c) (subscribers w)))"
    using m' by blast
  show ?thesis using one two by blast
qed

text \<open>What a registered component with a registered observable reads, and what an emission does.\<close>

lemma registered_reads:
  assumes "wf w" and "isStream s" and "renderingRef w = c"
    and "componentRegistrations w c = Some r"
    and "(s, oreg) \<in> set (observables (regs w r))"
  shows "\<forall>(obj, x) \<in> set (passAnswers c n body w). obj = s \<longrightarrow> x = result (obsRegs w oreg)"
    and "fst (async s w) = Inr (result (obsRegs w oreg))"
    and "length (filter ((=) c) (forceUpdates (emit s v w))) = Suc (length (filter ((=) c) (forceUpdates w)))"
    and "length (filter (\<lambda>sbr. snd (snd (snd sbr)) = c) (reached s w)) = 1"
proof -
  have reg: "componentRegistrations w (renderingRef w) = Some r" using assms(3,4) by simp
  define wA where "wA = passStart r n w"
  have wfA: "wf wA"
  proof -
    have "wf wA = wf w" unfolding wA_def passStart_def by (rule wf_cong) (simp_all add: updReg_def)
    then show ?thesis using assms(1) by simp
  qed
  have frA: "componentRegistrations wA (renderingRef wA) = Some r"
    "observables (regs wA r) = observables (regs w r)" "obsRegs wA = obsRegs w"
    using reg by (simp_all add: wA_def passStart_def updReg_def)
  have mA: "(s, oreg) \<in> set (observables (regs wA r))" using assms(5) by (simp add: frA)
  have w0: "w\<lparr>renderingRef := c\<rparr> = w" using assms(3) by simp
  have pa: "passAnswers c n body w = answers body wA"
    using assms(4) by (simp add: passAnswers_def wA_def w0)
  show "\<forall>(obj, x) \<in> set (passAnswers c n body w). obj = s \<longrightarrow> x = result (obsRegs w oreg)"
    using answers_registered [OF wfA assms(2) frA(1) mA, of body] by (simp add: pa frA(3))
  show "fst (async s w) = Inr (result (obsRegs w oreg))"
    by (simp add: async_stream_again [OF assms(1,2) reg assms(5)])
  show "length (filter ((=) c) (forceUpdates (emit s v w))) = Suc (length (filter ((=) c) (forceUpdates w)))"
    by (rule emit_registered(2) [OF assms(1,4,5)])
  show "length (filter (\<lambda>sbr. snd (snd (snd sbr)) = c) (reached s w)) = 1"
    by (simp add: reached_registered [OF assms(1,4,5)])
qed

lemma cached_append: "cached (xs @ ys) = (if ys = [] then cached xs else last ys)"
  by (simp add: cached_def)

section \<open>An observable that is read, forgotten and read again\<close>

text \<open>
  The component of \<open>worldS\<close> has read \<open>sA\<close> in its first pass; \<open>sA\<close> emits, and the
  component is disconnected and renders again.
\<close>

lemma disconnect_scenario:
  "passAnswers 0 7 (readOne sA) (world0 (readOne sA)) = [(sA, Undefined)]"
  "passAnswers 0 7 (readOne sA) (emit sA (JNum 1) worldS) = [(sA, JNum 1)]"
  "passAnswers 0 7 (readOne sA) (hostDisconnect 0 (emit sA (JNum 1) worldS)) = [(sA, Undefined)]"
  "map (\<lambda>sbr. (fst (snd sbr), snd (snd (snd sbr))))
       (subscribers (pass 0 (hostDisconnect 0 (emit sA (JNum 1) worldS)))) = [(sA, 0), (sA, 0)]"
  by (simp_all add: pass_defs scenario_defs model_defs)

text \<open>The component with the render function \<open>bodyT\<close> skips \<open>sA\<close> in one pass.\<close>

lemma reaper_scenario:
  "passAnswers 0 7 bodyT (world0 bodyT) = [(sB, Undefined), (sA, Undefined)]"
  "emissionsOf sA occurrencesT = [JNum 1]"
  "passAnswers 0 7 bodyT worldT = [(sB, JNum 2), (sA, Undefined)]"
  "map (\<lambda>sbr. (fst (snd sbr), snd (snd (snd sbr)))) (subscribers (pass 0 worldT))
     = [(sB, 0), (sA, 0), (sA, 0)]"
  "\<not> passesRead 0 sA 7 bodyT occurrencesT (pass 0 (world0 bodyT))"
  by (simp_all add: pass_defs scenario_defs model_defs)

text \<open>
  Claim C7, as stated, fails when the registration of the observable is removed between
  two reads. A component reads \<open>sA\<close> and gets \<open>undefined\<close>; \<open>sA\<close> emits 1, and a pass
  now would read 1. The component is disconnected, which destroys its registration, and
  renders again: the read of \<open>sA\<close> returns \<open>undefined\<close> although \<open>sA\<close> has emitted,
  and \<open>sA\<close> has got a second subscriber for the component. The same happens without
  a disconnect when one render pass of the component does not read \<open>sA\<close>, so that the
  reaper removes it, and a later pass reads it again.
\<close>

theorem stream_value_forgotten_counterexample:
  "passAnswers 0 7 (readOne sA) (world0 (readOne sA)) = [(sA, Undefined)]
   \<and> passAnswers 0 7 (readOne sA) (emit sA (JNum 1) worldS) = [(sA, JNum 1)]
   \<and> passAnswers 0 7 (readOne sA) (hostDisconnect 0 (emit sA (JNum 1) worldS)) = [(sA, Undefined)]
   \<and> map (\<lambda>sbr. (fst (snd sbr), snd (snd (snd sbr))))
          (subscribers (pass 0 (hostDisconnect 0 (emit sA (JNum 1) worldS)))) = [(sA, 0), (sA, 0)]
   \<and> passAnswers 0 7 bodyT (world0 bodyT) = [(sB, Undefined), (sA, Undefined)]
   \<and> emissionsOf sA occurrencesT = [JNum 1]
   \<and> passAnswers 0 7 bodyT (fold (occur 0) occurrencesT (pass 0 (world0 bodyT)))
        = [(sB, JNum 2), (sA, Undefined)]
   \<and> map (\<lambda>sbr. (fst (snd sbr), snd (snd (snd sbr))))
          (subscribers (pass 0 (fold (occur 0) occurrencesT (pass 0 (world0 bodyT)))))
        = [(sB, 0), (sA, 0), (sA, 0)]"
  using disconnect_scenario reaper_scenario(1-4) by (simp add: worldT_def)

section \<open>Reads of an observable across render passes\<close>

text \<open>
  Claim C7, amended. A component renders with a render function whose first pass reads an
  observable that the component has not registered. Afterwards the component renders
  again, promises settle and observables emit, in any order and number, and every one of
  these later passes reads the observable again, so that the reaper never removes it; the
  component is not disconnected. Then every read of the observable in the first pass
  returns \<open>undefined\<close>, unless the observable emitted while subscribing; every read of
  it afterwards, in a render pass or by a call of \<open>async\<close>, returns the value emitted last,
  or what the first pass returned as long as nothing was emitted; every emission requests
  one re-render of the component; through all the passes the observable got one
  subscriber for the component, and that subscription is the one live subscription of the
  component to the observable.
\<close>

theorem stream_read_follows_emissions:
  assumes "wf w" and "isPromise s = Inr False" and "isSubscribable s = Inr True"
    and "rendersWith c n body w"
    and "\<forall>r. componentRegistrations w c = Some r \<longrightarrow> s \<notin> fst ` set (observables (regs w r))"
    and "s \<in> set (passReads c n body w)"
    and "passesRead c s n body os (pass c w)"
  shows "(\<forall>(obj, x) \<in> set (passAnswers c n body w). obj = s \<longrightarrow> x = cached (syncEmits w s))
       \<and> (\<forall>(obj, x) \<in> set (passAnswers c n body (fold (occur c) os (pass c w))).
             obj = s \<longrightarrow> x = cached (syncEmits w s @ emissionsOf s os))
       \<and> fst (async s (fold (occur c) os (pass c w))) = Inr (cached (syncEmits w s @ emissionsOf s os))
       \<and> (\<forall>v. length (filter ((=) c) (forceUpdates (emit s v (fold (occur c) os (pass c w)))))
               = Suc (length (filter ((=) c) (forceUpdates (fold (occur c) os (pass c w))))))
       \<and> length (filter (\<lambda>sbr. fst (snd sbr) = s \<and> snd (snd (snd sbr)) = c) (subscribers (fold (occur c) os (pass c w))))
           = Suc (length (filter (\<lambda>sbr. fst (snd sbr) = s \<and> snd (snd (snd sbr)) = c) (subscribers w)))
       \<and> length (filter (\<lambda>sbr. snd (snd (snd sbr)) = c) (reached s (fold (occur c) os (pass c w)))) = 1"
proof -
  have st: "isStream s" using assms(2,3) by (simp add: isStream_def)
  note fp = first_pass [OF assms(1) st assms(4,5,6)]
  have one: "\<forall>(obj, x) \<in> set (passAnswers c n body w). obj = s \<longrightarrow> x = cached (syncEmits w s)"
    using fp by blast
  obtain r oreg where k1: "wf (pass c w)" "renderingRef (pass c w) = c"
      "componentRegistrations (pass c w) c = Some r"
      "(s, oreg) \<in> set (observables (regs (pass c w) r))"
      "render (components (pass c w) c) = WRender c r (UserFn n body)"
    and res1: "result (obsRegs (pass c w) oreg) = cached (syncEmits w s)"
    and cnt1: "length (filter (\<lambda>sbr. fst (snd sbr) = s \<and> snd (snd (snd sbr)) = c) (subscribers (pass c w)))
                = Suc (length (filter (\<lambda>sbr. fst (snd sbr) = s \<and> snd (snd (snd sbr)) = c) (subscribers w)))"
    using fp by blast
  define wN where "wN = fold (occur c) os (pass c w)"
  note ok = occurs_keep [OF k1(1) st k1(2-5) assms(7), folded wN_def]
  have kN: "wf wN" "renderingRef wN = c" "componentRegistrations wN c = Some r"
    "(s, oreg) \<in> set (observables (regs wN r))"
    using ok by simp_all
  have resN: "result (obsRegs wN oreg) = cached (syncEmits w s @ emissionsOf s os)"
    using ok by (simp add: res1 cached_append)
  have cntN: "length (filter (\<lambda>sbr. fst (snd sbr) = s \<and> snd (snd (snd sbr)) = c) (subscribers wN)) = Suc (length (filter (\<lambda>sbr. fst (snd sbr) = s \<and> snd (snd (snd sbr)) = c) (subscribers w)))"
    using ok cnt1 by simp
  note rr = registered_reads [OF kN(1) st kN(2,3,4), unfolded resN]
  have two: "\<forall>(obj, x) \<in> set (passAnswers c n body wN).
             obj = s \<longrightarrow> x = cached (syncEmits w s @ emissionsOf s os)"
    by (rule rr(1))
  have three: "fst (async s wN) = Inr (cached (syncEmits w s @ emissionsOf s os))"
    by (rule rr(2))
  have four: "\<forall>v. length (filter ((=) c) (forceUpdates (emit s v wN)))
               = Suc (length (filter ((=) c) (forceUpdates wN)))"
    using rr(3) by blast
  have six: "length (filter (\<lambda>sbr. snd (snd (snd sbr)) = c) (reached s wN)) = 1"
    by (rule rr(4))
  show ?thesis
    using one two three four cntN six unfolding wN_def by blast
qed

lemma someOccurrences_hyps:
  "rendersWith 0 7 bodyT (world0 bodyT)"
  "componentRegistrations (world0 bodyT) 0 = None"
  "sA \<in> set (passReads 0 7 bodyT (world0 bodyT))"
  "passesRead 0 sA 7 bodyT someOccurrences (pass 0 (world0 bodyT))"
  "syncEmits (world0 bodyT) sA = []"
  "emissionsOf sA someOccurrences = [JNum 1, JNum 3]"
  "subscribers (world0 bodyT) = []"
  by (simp_all add: pass_defs scenario_defs model_defs)

lemma someOccurrences_answers:
  "passAnswers 0 7 bodyT (fold (occur 0) someOccurrences (pass 0 (world0 bodyT)))
     = [(sB, JNum 2), (sA, JNum 3)]"
  by (simp add: pass_defs scenario_defs model_defs)

theorem stream_read_follows_emissions_witness:
  "wf (world0 bodyT) \<and> isPromise sA = Inr False \<and> isSubscribable sA = Inr True
   \<and> rendersWith 0 7 bodyT (world0 bodyT)
   \<and> componentRegistrations (world0 bodyT) 0 = None
   \<and> sA \<in> set (passReads 0 7 bodyT (world0 bodyT))
   \<and> passesRead 0 sA 7 bodyT someOccurrences (pass 0 (world0 bodyT))
   \<and> passAnswers 0 7 bodyT (fold (occur 0) someOccurrences (pass 0 (world0 bodyT)))
        = [(sB, JNum 2), (sA, JNum 3)]
   \<and> fst (async sA (fold (occur 0) someOccurrences (pass 0 (world0 bodyT)))) = Inr (JNum 3)
   \<and> length (filter ((=) 0) (forceUpdates
         (emit sA (JNum 4) (fold (occur 0) someOccurrences (pass 0 (world0 bodyT))))))
       = Suc (length (filter ((=) 0) (forceUpdates
                (fold (occur 0) someOccurrences (pass 0 (world0 bodyT))))))
   \<and> length (filter (\<lambda>sbr. fst (snd sbr) = sA \<and> snd (snd (snd sbr)) = 0)
                (subscribers (fold (occur 0) someOccurrences (pass 0 (world0 bodyT))))) = 1
   \<and> length (filter (\<lambda>sbr. snd (snd (snd sbr)) = 0)
                (reached sA (fold (occur 0) someOccurrences (pass 0 (world0 bodyT))))) = 1"
proof -
  note h = wf_world0 [of bodyT] isStream_sA someOccurrences_hyps(1)
  have u: "\<forall>r. componentRegistrations (world0 bodyT) 0 = Some r \<longrightarrow>
             sA \<notin> fst ` set (observables (regs (world0 bodyT) r))"
    by (simp add: someOccurrences_hyps(2))
  note t = stream_read_follows_emissions [OF h u someOccurrences_hyps(3,4)]
  have c: "cached (syncEmits (world0 bodyT) sA @ emissionsOf sA someOccurrences) = JNum 3"
    by (simp add: someOccurrences_hyps cached_def)
  show ?thesis
    using t h someOccurrences_hyps(2,3,4) someOccurrences_answers
    by (simp add: c someOccurrences_hyps(7))
qed

section \<open>Every world that can be reached is well-formed\<close>

lemma wf_step: "wf w \<Longrightarrow> wf (step e w)"
  by (cases e) (simp_all add: pass_def wf_hostRender wf_hostConnect wf_hostDisconnect wf_envStep)

lemma wf_reachable: "wf (fold step es (startWorld cs se))"
proof -
  have "wf (startWorld cs se) = wf emptyWorld"
    unfolding startWorld_def by (rule wf_cong) simp_all
  then have s: "wf (startWorld cs se)" by (simp add: wf_emptyWorld)
  have "wf w \<Longrightarrow> wf (fold step es w)" for w
    by (induction es arbitrary: w) (simp_all add: wf_step)
  then show ?thesis using s by blast
qed

end
